theory Spec2Isabelle
  imports Complex_Main "HOL-Library.Word" "HOL-Library.AList" "HOL-Library.Log_Nat"
begin

unbundle bit_operations_syntax

section \<open>The ReverseTk plugin: gateway payload interception\<close>

text \<open>
  A shallow embedding of \<^verbatim>\<open>src/plugins/reverseTk/index.tsx\<close>: the call-trace tree
  (\<^verbatim>\<open>CallTrace\<close>, \<^verbatim>\<open>buildTree\<close>), the capability toggles of the modal, the
  inbound READY normaliser (\<^verbatim>\<open>_interceptIncomingDispatchPayload\<close>), the deep copy
  (\<^verbatim>\<open>copy\<close>) and the outbound interceptor (\<^verbatim>\<open>_interceptOutgoingPayload\<close>).
  All definitions come first; the lemmas and the theorems of the claims follow.
\<close>

subsection \<open>Call traces\<close>

text \<open>
  \<^verbatim>\<open>interface CallTracePayload { micros: number; calls?: [string, CallTracePayload][] }\<close>.
  The optional key \<^verbatim>\<open>calls\<close> is an \<open>option\<close>: \<open>None\<close> is a payload without the key.
  \<^verbatim>\<open>micros\<close> is an integer on the wire; as a JavaScript number it is a double, which
  holds every integer up to \<open>2^53\<close> in magnitude exactly.
\<close>

datatype CallTracePayload =
  CallTracePayload int "(string \<times> CallTracePayload) list option"

text \<open>
  JavaScript numbers are IEEE 754 doubles (binary64), and \<^verbatim>\<open>/\<close> and \<^verbatim>\<open>*\<close> return the
  double nearest to the exact quotient or product, a tie going to the double with the even
  significand. A finite double is represented by the rational number it denotes, and
  \<open>to_double x\<close> is the double nearest to the rational \<open>x\<close>:

    \<^item> \<open>expo0 a\<close>, for \<open>a > 0\<close>, is the exponent \<open>e\<close> with \<open>2^(e+52) \<le> a < 2^(e+53)\<close>, found
      from the bit lengths of the numerator and the denominator of \<open>a\<close>; the doubles of
      this binade are the multiples \<open>n * 2^e\<close> with a 53-bit significand \<open>n\<close>;
    \<^item> \<open>expo a\<close> is this exponent, not below \<open>- 1074\<close>: the doubles under \<open>2^(- 1022)\<close> are
      the subnormal ones, multiples of \<open>2^(- 1074)\<close>;
    \<^item> \<open>rne y\<close> is the integer nearest to \<open>y\<close>, the even one of the two at a tie.

  The overflow to \<^verbatim>\<open>Infinity\<close> of a result of magnitude \<open>2^1024\<close> or more is not modelled:
  the quotient \<^verbatim>\<open>micros / 1000\<close> of a finite number never reaches it, and the product
  \<^verbatim>\<open>duration * 1000\<close> only for a \<^verbatim>\<open>micros\<close> above \<open>10^308\<close>.
\<close>

definition expo0 :: "rat \<Rightarrow> int" where
  "expo0 a = (case quotient_of a of (p, q) \<Rightarrow>
               let e = bitlen p - bitlen q - 53
               in if a < 2 powi (e + 53) then e else e + 1)"

definition expo :: "rat \<Rightarrow> int" where
  "expo a = max (expo0 a) (- 1074)"

definition rne :: "rat \<Rightarrow> int" where
  "rne y = (let f = \<lfloor>y\<rfloor>; r = y - of_int f
            in if r < 1 / 2 then f else if 1 / 2 < r then f + 1
               else if even f then f else f + 1)"

definition to_double :: "rat \<Rightarrow> rat" where
  "to_double x =
     (if x = 0 then 0
      else sgn x * of_int (rne (\<bar>x\<bar> / 2 powi expo \<bar>x\<bar>)) * 2 powi expo \<bar>x\<bar>)"

text \<open>
  The operators \<^verbatim>\<open>/\<close> and \<^verbatim>\<open>*\<close> on doubles, and \<^verbatim>\<open>Math.round\<close>, which returns
  \<open>\<lfloor>x + 1/2\<rfloor>\<close> exactly (a tie goes up); this is \<^const>\<open>round\<close>.
\<close>

definition js_div :: "rat \<Rightarrow> rat \<Rightarrow> rat" where
  "js_div x y = to_double (x / y)"

definition js_mul :: "rat \<Rightarrow> rat \<Rightarrow> rat" where
  "js_mul x y = to_double (x * y)"

definition Math_round :: "rat \<Rightarrow> int" where
  "Math_round x = round x"

text \<open>
  \<^verbatim>\<open>class CallTrace { name: string; duration: number; calls: CallTrace[] }\<close>.
  The duration is a double, represented by the rational it denotes.
\<close>

datatype CallTrace = CallTrace string rat "CallTrace list"

text \<open>
  The constructor: \<^verbatim>\<open>this.duration = data.micros / 1000\<close> and
  \<^verbatim>\<open>this.calls = (data.calls || []).map(([n, d]) => new CallTrace(n, d))\<close>.
\<close>

fun new_CallTrace :: "string \<Rightarrow> CallTracePayload \<Rightarrow> CallTrace" where
  "new_CallTrace name (CallTracePayload micros calls) =
     CallTrace name (js_div (of_int micros) 1000)
       (map (\<lambda>(n, d). new_CallTrace n d) (case calls of None \<Rightarrow> [] | Some cs \<Rightarrow> cs))"

text \<open>
  \<^verbatim>\<open>toData()\<close> returns \<^verbatim>\<open>[name, {micros: Math.round(duration * 1000), calls: calls.map(toData)}]\<close>:
  the key \<^verbatim>\<open>calls\<close> is always written.
\<close>

fun toData :: "CallTrace \<Rightarrow> string \<times> CallTracePayload" where
  "toData (CallTrace name duration calls) =
     (name, CallTracePayload (Math_round (js_mul duration 1000)) (Some (map toData calls)))"

text \<open>A tuple list of the wire format, converted node by node in both directions.\<close>

definition fromWire :: "(string \<times> CallTracePayload) list \<Rightarrow> CallTrace list" where
  "fromWire tuples = map (\<lambda>(n, d). new_CallTrace n d) tuples"

definition toWire :: "CallTrace list \<Rightarrow> (string \<times> CallTracePayload) list" where
  "toWire nodes = map toData nodes"

text \<open>
  What a round trip does to a payload, and when it does nothing: \<open>with_calls\<close> writes the
  key \<^verbatim>\<open>calls\<close> (an empty list) wherever it is absent, \<open>calls_present\<close> says that no payload
  of the tree omits it. \<open>micros_small\<close> bounds every \<^verbatim>\<open>micros\<close> of a payload, at every
  depth, by \<open>2^50\<close> in magnitude (about 35 years).
\<close>

fun with_calls :: "CallTracePayload \<Rightarrow> CallTracePayload" where
  "with_calls (CallTracePayload micros calls) =
     CallTracePayload micros
       (Some (map (\<lambda>(n, d). (n, with_calls d)) (case calls of None \<Rightarrow> [] | Some cs \<Rightarrow> cs)))"

fun calls_present :: "CallTracePayload \<Rightarrow> bool" where
  "calls_present (CallTracePayload micros calls) =
     (case calls of None \<Rightarrow> False | Some cs \<Rightarrow> list_all (\<lambda>(n, d). calls_present d) cs)"

fun micros_small :: "CallTracePayload \<Rightarrow> bool" where
  "micros_small (CallTracePayload micros calls) =
     (\<bar>micros\<bar> \<le> 2 ^ 50
      \<and> (case calls of None \<Rightarrow> True | Some cs \<Rightarrow> list_all (\<lambda>(n, d). micros_small d) cs))"

subsection \<open>Rendering a call trace\<close>

text \<open>
  \<^verbatim>\<open>String.prototype.split\<close> with a one-character separator and \<^verbatim>\<open>Array.prototype.join\<close>.
  Splitting the empty string gives one empty piece; a string that ends with the separator
  gives an empty last piece.
\<close>

fun split :: "char \<Rightarrow> string \<Rightarrow> string list" where
  "split c [] = [[]]"
| "split c (x # xs) =
     (if x = c then [] # split c xs
      else (case split c xs of [] \<Rightarrow> [[x]] | l # ls \<Rightarrow> (x # l) # ls))"

fun join :: "string \<Rightarrow> string list \<Rightarrow> string" where
  "join sep [] = []"
| "join sep [x] = x"
| "join sep (x # y # ys) = x @ sep @ join sep (y # ys)"

text \<open>
  \<^verbatim>\<open>buildTree\<close>: the loop over \<^verbatim>\<open>calls\<close> appends to \<^verbatim>\<open>result\<close>, first the node's own
  line, then (when the node has children) the children's renderings, each split at the
  newlines, every piece prefixed with \<^verbatim>\<open>"|  "\<close>, and joined again. The conversion of the
  duration to text in the template literal is the parameter \<open>fmt\<close>.
\<close>

function buildTree :: "(rat \<Rightarrow> string) \<Rightarrow> CallTrace list \<Rightarrow> string" where
  "buildTree fmt [] = []"
| "buildTree fmt (CallTrace name duration calls # rest) =
     (name @ '': '' @ fmt duration @ ''\<newline>'')
     @ (if length calls > 0
        then join ''\<newline>''
               (map (\<lambda>subCall. join ''\<newline>''
                       (map (\<lambda>line. ''|  '' @ line)
                          (split CHR 0x0A (buildTree fmt [subCall]))))
                    calls)
        else [])
     @ buildTree fmt rest"
  by pat_completeness auto
termination
  by (relation "measure (\<lambda>(fmt, cs). size_list size cs)")
     (auto simp: less_Suc_eq_le intro: trans_le_add1 size_list_estimation')

subsection \<open>The capability bitmask and its toggles\<close>

text \<open>
  JavaScript's bitwise operators work on 32-bit integers: each operand is first converted
  with ToInt32 (reduced modulo \<open>2^32\<close> and read as a signed two's complement
  value), and the result is again a signed 32-bit integer. The numbers involved are whole
  numbers, modelled as \<open>int\<close> with the conversion written out. \<open>js_shl\<close> is
  \<^verbatim>\<open><<\<close>, which uses the shift count modulo 32.
\<close>

definition toInt32 :: "int \<Rightarrow> int" where
  "toInt32 x = signed_take_bit 31 x"

definition js_and :: "int \<Rightarrow> int \<Rightarrow> int" where
  "js_and a b = toInt32 a AND toInt32 b"

definition js_or :: "int \<Rightarrow> int \<Rightarrow> int" where
  "js_or a b = toInt32 a OR toInt32 b"

definition js_not :: "int \<Rightarrow> int" where
  "js_not a = NOT (toInt32 a)"

definition js_shl :: "int \<Rightarrow> nat \<Rightarrow> int" where
  "js_shl a k = toInt32 (push_bit (k mod 32) (toInt32 a))"

text \<open>
  The table \<^verbatim>\<open>KNOWN_CAPABILITIES\<close>: the name of each capability and its mask
  \<^verbatim>\<open>1 << k\<close> (the description shown in the tooltip is left out). The last mask,
  \<^verbatim>\<open>1 << 31\<close>, is the negative number \<open>- 2^31\<close>.
\<close>

definition KNOWN_CAPABILITIES :: "(string \<times> int) list" where
  "KNOWN_CAPABILITIES =
    [(''LAZY_USER_NOTES'', js_shl 1 0),
     (''NO_AFFINE_USER_IDS'', js_shl 1 1),
     (''VERSIONED_READ_STATES'', js_shl 1 2),
     (''VERSIONED_USER_GUILD_SETTINGS'', js_shl 1 3),
     (''DEDUPE_USER_OBJECTS'', js_shl 1 4),
     (''PRIORITIZED_READY_PAYLOAD'', js_shl 1 5),
     (''MULTIPLE_GUILD_EXPERIMENT_POPULATIONS'', js_shl 1 6),
     (''NON_CHANNEL_READ_STATES'', js_shl 1 7),
     (''AUTH_TOKEN_REFRESH'', js_shl 1 8),
     (''USER_SETTINGS_PROTO'', js_shl 1 9),
     (''CLIENT_STATE_V2'', js_shl 1 10),
     (''PASSIVE_GUILD_UPDATE'', js_shl 1 11),
     (''AUTO_CALL_CONNECT'', js_shl 1 12),
     (''DEBOUNCE_MESSAGE_REACTIONS'', js_shl 1 13),
     (''PASSIVE_GUILD_UPDATE_V2'', js_shl 1 14),
     (''PRIVATE_CHANNEL_OBFUSCATION'', js_shl 1 15),
     (''UNKNOWN_BIT_16'', js_shl 1 16),
     (''UNKNOWN_BIT_17'', js_shl 1 17),
     (''UNKNOWN_BIT_18'', js_shl 1 18),
     (''UNKNOWN_BIT_19'', js_shl 1 19),
     (''UNKNOWN_BIT_20'', js_shl 1 20),
     (''UNKNOWN_BIT_21'', js_shl 1 21),
     (''UNKNOWN_BIT_22'', js_shl 1 22),
     (''UNKNOWN_BIT_23'', js_shl 1 23),
     (''UNKNOWN_BIT_24'', js_shl 1 24),
     (''UNKNOWN_BIT_25'', js_shl 1 25),
     (''UNKNOWN_BIT_26'', js_shl 1 26),
     (''UNKNOWN_BIT_27'', js_shl 1 27),
     (''UNKNOWN_BIT_28'', js_shl 1 28),
     (''UNKNOWN_BIT_29'', js_shl 1 29),
     (''UNKNOWN_BIT_30'', js_shl 1 30),
     (''UNKNOWN_BIT_31'', js_shl 1 31)]"

text \<open>
  The \<^verbatim>\<open>onChange\<close> handler of a capability's checkbox in \<^verbatim>\<open>ReverseTkModalContent\<close>,
  for the table entry with mask \<open>v\<close>, as a function of the module variable
  \<^verbatim>\<open>capabilities\<close>:
  \<^verbatim>\<open>if (capabilities & value) capabilities &= ~value; else capabilities |= value;\<close>
  The checkboxes are rendered only when \<^verbatim>\<open>capabilities\<close> is not \<^verbatim>\<open>undefined\<close>, so the
  handler works on a number.
\<close>

definition toggleCapability :: "int \<Rightarrow> int \<Rightarrow> int" where
  "toggleCapability v capabilities =
     (if js_and capabilities v \<noteq> 0 then js_and capabilities (js_not v)
      else js_or capabilities v)"

subsection \<open>Inbound dispatch payloads\<close>

text \<open>
  A dispatch payload is decoded wire data: a tree of JSON-like values without sharing.
  Records are association lists in the order of their keys (no two entries of a record
  share a key); arrays are dense. \<^verbatim>\<open>_interceptIncomingDispatchPayload\<close> changes the
  payload in place and returns the same reference; on a tree that is the changed tree.
\<close>

datatype jsval =
    JUndefined
  | JNull
  | JBool bool
  | JNum int
  | JStr string
  | JArr "jsval list"
  | JObj "(string \<times> jsval) list"

text \<open>
  What a call can end with other than a result: a \<^verbatim>\<open>TypeError\<close> or \<^verbatim>\<open>RangeError\<close>
  thrown to the caller, and \<open>NotModelled\<close> where the source goes on with a value that the
  types of this theory cannot hold.
\<close>

datatype error = TypeError | RangeError | NotModelled

text \<open>
  Reading a property \<^verbatim>\<open>data.k\<close>, for the names read here (\<^verbatim>\<open>read_state\<close>,
  \<^verbatim>\<open>user_guild_settings\<close>, \<^verbatim>\<open>guilds\<close>, none of them defined on a built-in prototype):
  \<^verbatim>\<open>undefined\<close> and \<^verbatim>\<open>null\<close> throw, a record gives its entry or \<^verbatim>\<open>undefined\<close>, every
  other value gives \<^verbatim>\<open>undefined\<close>. The assignment \<^verbatim>\<open>data.k = v\<close> is only reached for a
  record.
\<close>

fun get_member :: "jsval \<Rightarrow> string \<Rightarrow> error + jsval" where
  "get_member JUndefined k = Inl TypeError"
| "get_member JNull k = Inl TypeError"
| "get_member (JObj ps) k = Inr (case map_of ps k of None \<Rightarrow> JUndefined | Some v \<Rightarrow> v)"
| "get_member v k = Inr JUndefined"

fun set_member :: "jsval \<Rightarrow> string \<Rightarrow> jsval \<Rightarrow> jsval" where
  "set_member (JObj ps) k v = JObj (AList.update k v ps)"
| "set_member d k v = d"

fun isArray :: "jsval \<Rightarrow> bool" where
  "isArray (JArr xs) = True"
| "isArray v = False"

text \<open>The versioned shape \<^verbatim>\<open>{entries: ..., partial: false, version: 1}\<close>.\<close>

definition versioned :: "jsval \<Rightarrow> jsval" where
  "versioned entries =
     JObj [(''entries'', entries), (''partial'', JBool False), (''version'', JNum 1)]"

text \<open>
  \<^verbatim>\<open>for (const guildData of data.guilds)\<close>: an array yields its elements, a string its
  characters; nothing else met here is iterable, and the loop throws a \<^verbatim>\<open>TypeError\<close>.
\<close>

fun iterate :: "jsval \<Rightarrow> error + jsval list" where
  "iterate (JArr xs) = Inr xs"
| "iterate (JStr s) = Inr (map (\<lambda>c. JStr [c]) s)"
| "iterate v = Inl TypeError"

text \<open>The decimal numeral of an array index, as a property name.\<close>

definition digit :: "nat \<Rightarrow> char" where
  "digit d = char_of (48 + d)"

fun decimal :: "nat \<Rightarrow> string" where
  "decimal n = (if n < 10 then [digit n] else decimal (n div 10) @ [digit (n mod 10)])"

text \<open>The array \<^verbatim>\<open>outerFields\<close> of the source, in its order.\<close>

definition outerFields :: "string list" where
  "outerFields =
     [''id'', ''data_mode'', ''partial_updates'', ''channel_updates'',
      ''guild_scheduled_events'', ''joined_at'', ''last_messages'', ''member_count'',
      ''members'', ''premium_subscription_count'', ''roles'', ''stage_instances'',
      ''unable_to_sync_deletes'', ''threads'', ''version'', ''has_threads_subscription'',
      ''stickers'', ''presences'', ''activity_instances'', ''voice_states'']"

text \<open>
  The source tests \<^verbatim>\<open>key in outerFields\<close>. On an array the operator \<^verbatim>\<open>in\<close> asks whether
  the array has a property of that name: an index below its length, \<^verbatim>\<open>length\<close>, or a
  name inherited from \<^verbatim>\<open>Array.prototype\<close> and \<^verbatim>\<open>Object.prototype\<close> (listed here for the
  ECMAScript 2023 library). It does not look at the elements.
\<close>

definition array_inherited :: "string list" where
  "array_inherited =
     [''at'', ''concat'', ''constructor'', ''copyWithin'', ''entries'', ''every'', ''fill'',
      ''filter'', ''find'', ''findIndex'', ''findLast'', ''findLastIndex'', ''flat'',
      ''flatMap'', ''forEach'', ''includes'', ''indexOf'', ''join'', ''keys'',
      ''lastIndexOf'', ''map'', ''pop'', ''push'', ''reduce'', ''reduceRight'', ''reverse'',
      ''shift'', ''slice'', ''some'', ''sort'', ''splice'', ''toLocaleString'',
      ''toReversed'', ''toSorted'', ''toSpliced'', ''toString'', ''unshift'', ''values'',
      ''with'',
      ''__defineGetter__'', ''__defineSetter__'', ''__lookupGetter__'',
      ''__lookupSetter__'', ''__proto__'', ''hasOwnProperty'', ''isPrototypeOf'',
      ''propertyIsEnumerable'', ''valueOf'']"

definition js_in :: "string \<Rightarrow> 'a list \<Rightarrow> bool" where
  "js_in key arr \<longleftrightarrow>
     key \<in> set (map decimal [0..<length arr]) \<or> key = ''length'' \<or> key \<in> set array_inherited"

text \<open>
  \<^verbatim>\<open>properties[key] = v\<close> on the fresh record \<^verbatim>\<open>properties\<close>: an own entry, except for the
  name \<^verbatim>\<open>__proto__\<close>, which reaches the prototype accessor and leaves the entries alone.
\<close>

definition assign :: "(string \<times> jsval) list \<Rightarrow> string \<Rightarrow> jsval \<Rightarrow> (string \<times> jsval) list" where
  "assign ps k v = (if k = ''__proto__'' then ps else AList.update k v ps)"

text \<open>
  The inner loop over \<^verbatim>\<open>Object.keys(guildData)\<close>, carrying the guild record and the
  record \<^verbatim>\<open>properties\<close>: a key that passes the test is stored in \<^verbatim>\<open>properties\<close> and
  deleted from the guild.
\<close>

fun move_fields :: "string list \<Rightarrow> (string \<times> jsval) list \<times> (string \<times> jsval) list
                     \<Rightarrow> (string \<times> jsval) list \<times> (string \<times> jsval) list" where
  "move_fields [] (guildData, properties) = (guildData, properties)"
| "move_fields (key # keys) (guildData, properties) =
     (if js_in key outerFields
      then move_fields keys
             (AList.delete key guildData,
              assign properties key (case map_of guildData key of None \<Rightarrow> JUndefined | Some v \<Rightarrow> v))
      else move_fields keys (guildData, properties))"

text \<open>
  The body of the loop over the guilds. \<^verbatim>\<open>"properties" in guildData\<close> throws a
  \<^verbatim>\<open>TypeError\<close> when \<^verbatim>\<open>guildData\<close> is not an object. For an array the source goes on and
  stores a field on the array itself, which \<^typ>\<open>jsval\<close> cannot hold.
\<close>

fun fix_guild :: "jsval \<Rightarrow> error + jsval" where
  "fix_guild (JObj guildData) =
     (if map_of guildData ''properties'' = None
      then (case move_fields (map fst guildData) (guildData, []) of
              (guildData', properties) \<Rightarrow>
                Inr (JObj (AList.update ''properties'' (JObj properties) guildData')))
      else Inr (JObj guildData))"
| "fix_guild (JArr xs) = Inl NotModelled"
| "fix_guild v = Inl TypeError"

text \<open>A loop that stops at the first exception.\<close>

fun for_each :: "('a \<Rightarrow> error + 'b) \<Rightarrow> 'a list \<Rightarrow> error + 'b list" where
  "for_each f [] = Inr []"
| "for_each f (x # xs) =
     (case f x of
        Inl e \<Rightarrow> Inl e
      | Inr y \<Rightarrow> (case for_each f xs of Inl e \<Rightarrow> Inl e | Inr ys \<Rightarrow> Inr (y # ys)))"

text \<open>
  \<^verbatim>\<open>if (Array.isArray(data.k)) data.k = {entries: data.k, partial: false, version: 1}\<close>,
  for \<^verbatim>\<open>read_state\<close> and \<^verbatim>\<open>user_guild_settings\<close>.
\<close>

definition wrap_legacy :: "string \<Rightarrow> jsval \<Rightarrow> error + jsval" where
  "wrap_legacy k d =
     (case get_member d k of
        Inl e \<Rightarrow> Inl e
      | Inr v \<Rightarrow> Inr (if isArray v then set_member d k (versioned v) else d))"

text \<open>
  The loop \<^verbatim>\<open>for (const guildData of data.guilds)\<close>. The guild records are changed in
  place, so afterwards the array under \<^verbatim>\<open>guilds\<close> holds the changed records.
\<close>

definition fix_guilds :: "jsval \<Rightarrow> error + jsval" where
  "fix_guilds d =
     (case get_member d ''guilds'' of
        Inl e \<Rightarrow> Inl e
      | Inr guilds \<Rightarrow>
          (case iterate guilds of
             Inl e \<Rightarrow> Inl e
           | Inr gs \<Rightarrow>
               (case for_each fix_guild gs of
                  Inl e \<Rightarrow> Inl e
                | Inr gs' \<Rightarrow> Inr (if isArray guilds then set_member d ''guilds'' (JArr gs') else d))))"

text \<open>
  \<^verbatim>\<open>_interceptIncomingDispatchPayload(type, data, extra)\<close>; the setting
  \<^verbatim>\<open>settings.store.fixReady\<close> is the parameter \<open>fixReady\<close>, and \<^verbatim>\<open>extra\<close>, which the
  source never reads, is left out. The source has no \<^verbatim>\<open>try\<close>: an exception leaves the
  function.
\<close>

definition interceptIncomingDispatchPayload :: "bool \<Rightarrow> string \<Rightarrow> jsval \<Rightarrow> error + string \<times> jsval" where
  "interceptIncomingDispatchPayload fixReady type d =
     (if type = ''READY'' \<and> fixReady
      then (case wrap_legacy ''read_state'' d of
              Inl e \<Rightarrow> Inl e
            | Inr d1 \<Rightarrow>
                (case wrap_legacy ''user_guild_settings'' d1 of
                   Inl e \<Rightarrow> Inl e
                 | Inr d2 \<Rightarrow>
                     (case fix_guilds d2 of
                        Inl e \<Rightarrow> Inl e
                      | Inr d3 \<Rightarrow> Inr (type, d3))))
      else Inr (type, d))"

text \<open>Records, and the values that are not objects at all.\<close>

fun is_record :: "jsval \<Rightarrow> bool" where
  "is_record (JObj ps) = True"
| "is_record v = False"

fun is_primitive :: "jsval \<Rightarrow> bool" where
  "is_primitive (JObj ps) = False"
| "is_primitive (JArr xs) = False"
| "is_primitive v = True"

subsection \<open>Objects in a store\<close>

text \<open>
  \<^verbatim>\<open>copy\<close> and \<^verbatim>\<open>_interceptOutgoingPayload\<close> are about the identity of objects, so their
  values live in a store: a list of cells, an address being an index into it. A value is
  a primitive or a reference. A cell is a plain object with its prototype, an array with
  its elements, or a function, each with its own enumerable properties. A function is a
  native one, known by a number, or the arrow function \<^verbatim>\<open>(...args) => obj(...args)\<close> that
  \<^verbatim>\<open>copy\<close> creates, which holds the function it forwards to. Numbers are whole numbers.
\<close>

type_synonym addr = nat

datatype val = Undefined | Null | Bool bool | Num int | BigInt int | Str string | Ref addr

datatype proto = ObjectProto | NullProto | ClassProto nat

datatype fn = Native nat | Forward addr

datatype kind = Plain proto | Array "val list" | Function fn

type_synonym cell = "kind \<times> (string \<times> val) list"

type_synonym heap = "cell list"

text \<open>A new object gets the next address; \<^verbatim>\<open>o[k] = v\<close> on the object at an address.\<close>

definition alloc :: "heap \<Rightarrow> cell \<Rightarrow> heap \<times> val" where
  "alloc h c = (h @ [c], Ref (length h))"

definition store_prop :: "heap \<Rightarrow> addr \<Rightarrow> string \<Rightarrow> val \<Rightarrow> heap" where
  "store_prop h a k v = h[a := (fst (h ! a), AList.update k v (snd (h ! a)))]"

text \<open>
  \<^verbatim>\<open>obj.__proto__\<close> is the object's prototype, or \<^verbatim>\<open>undefined\<close> (\<open>None\<close>) for an object
  without one, which does not inherit the accessor. \<^verbatim>\<open>ret.__proto__ = p\<close> sets the
  prototype and ignores \<^verbatim>\<open>undefined\<close>.
\<close>

fun read_proto :: "proto \<Rightarrow> proto option" where
  "read_proto NullProto = None"
| "read_proto p = Some p"

fun write_proto :: "heap \<Rightarrow> addr \<Rightarrow> proto option \<Rightarrow> heap" where
  "write_proto h a None = h"
| "write_proto h a (Some p) = h[a := (Plain p, snd (h ! a))]"

text \<open>
  \<^verbatim>\<open>obj.map(copy)\<close>: the elements are copied from left to right, the store threaded
  through. \<open>None\<close> is a copy that did not return.
\<close>

fun copy_elems :: "(heap \<Rightarrow> val \<Rightarrow> (heap \<times> val) option) \<Rightarrow> heap \<Rightarrow> val list
                     \<Rightarrow> (heap \<times> val list) option" where
  "copy_elems f h [] = Some (h, [])"
| "copy_elems f h (x # xs) =
     (case f h x of
        None \<Rightarrow> None
      | Some (h1, y) \<Rightarrow>
          (case copy_elems f h1 xs of None \<Rightarrow> None | Some (h2, ys) \<Rightarrow> Some (h2, y # ys)))"

text \<open>
  \<^verbatim>\<open>for (const [k, v] of Object.entries(obj)) ret[k] = copy(v)\<close>, with \<^verbatim>\<open>ret\<close> at the
  address \<open>ret\<close>.
\<close>

fun copy_entries :: "(heap \<Rightarrow> val \<Rightarrow> (heap \<times> val) option) \<Rightarrow> addr \<Rightarrow> heap
                       \<Rightarrow> (string \<times> val) list \<Rightarrow> heap option" where
  "copy_entries f ret h [] = Some h"
| "copy_entries f ret h ((k, v) # kvs) =
     (case f h v of
        None \<Rightarrow> None
      | Some (h1, v') \<Rightarrow> copy_entries f ret (store_prop h1 ret k v') kvs)"

text \<open>
  \<^verbatim>\<open>copy\<close>, in the order of the source: a primitive is returned as it is; a function
  gives a new arrow function that forwards to it; an array is mapped; any other object
  gives a new record \<^verbatim>\<open>ret = {}\<close> that receives a copy of every entry and then, unless
  \<^verbatim>\<open>obj.__proto__\<close> is \<^verbatim>\<open>Object.prototype\<close>, the prototype of \<^verbatim>\<open>obj\<close>.
  The recursion of the source follows the structure of its argument and does not end on a
  cyclic one. The first argument here bounds the depth of the recursion: the result is
  \<open>None\<close> when the bound is reached (and for a reference to no cell of the store), and
  the theorems below show that a bound above the depth of a finite structure gives the copy.
\<close>

fun copy :: "nat \<Rightarrow> heap \<Rightarrow> val \<Rightarrow> (heap \<times> val) option" where
  "copy 0 h obj = None"
| "copy (Suc n) h (Ref a) =
     (if a < length h
      then (case h ! a of
              (Function f, ps) \<Rightarrow> Some (alloc h (Function (Forward a), []))
            | (Array xs, ps) \<Rightarrow>
                (case copy_elems (copy n) h xs of
                   None \<Rightarrow> None
                 | Some (h1, ys) \<Rightarrow> Some (alloc h1 (Array ys, [])))
            | (Plain p, ps) \<Rightarrow>
                (case alloc h (Plain ObjectProto, []) of
                   (h0, ret) \<Rightarrow>
                     (case copy_entries (copy n) (length h) h0 ps of
                        None \<Rightarrow> None
                      | Some h1 \<Rightarrow>
                          Some (if read_proto p \<noteq> Some ObjectProto
                                then write_proto h1 (length h) (read_proto p)
                                else h1,
                                ret))))
      else None)"
| "copy (Suc n) h obj = Some (h, obj)"

text \<open>
  Calling a function value with a list of arguments: a native function returns what its
  behaviour \<open>natives g\<close> gives for the store and the arguments, an arrow function made by
  \<^verbatim>\<open>copy\<close> calls the function it holds with the same arguments and returns its result.
  Anything else is not callable (\<open>None\<close>).
\<close>

fun call :: "(nat \<Rightarrow> heap \<Rightarrow> val list \<Rightarrow> 'r) \<Rightarrow> nat \<Rightarrow> heap \<Rightarrow> val \<Rightarrow> val list \<Rightarrow> 'r option" where
  "call natives 0 h f args = None"
| "call natives (Suc n) h (Ref a) args =
     (if a < length h
      then (case h ! a of
              (Function (Native g), ps) \<Rightarrow> Some (natives g h args)
            | (Function (Forward b), ps) \<Rightarrow> call natives n h (Ref b) args
            | _ \<Rightarrow> None)
      else None)"
| "call natives (Suc n) h f args = None"

subsection \<open>Structural values\<close>

text \<open>
  The structure that a value has in a store, read off to a given depth: a primitive leaf,
  an array with the structures of its elements, a record with its keys and the structures
  of their values, a native function, or a forwarding function with the structure of its
  target. Every node carries the address of its object. \<open>view\<close> gives \<open>None\<close> for a value
  that is not a finite tree of that depth, for an array that has properties besides its
  elements, and for a record with two entries of one key or with an own entry named
  \<^verbatim>\<open>__proto__\<close> (such an entry is not written by \<^verbatim>\<open>ret[k] = ...\<close> as a property); these
  are not structural inputs.
\<close>

datatype tree =
    Leaf val
  | ArrayT addr "tree list"
  | RecordT addr "string list" "tree list"
  | NativeT addr nat
  | ForwardT addr tree

fun is_function :: "tree \<Rightarrow> bool" where
  "is_function (NativeT a g) = True"
| "is_function (ForwardT a t) = True"
| "is_function t = False"

fun view :: "nat \<Rightarrow> heap \<Rightarrow> val \<Rightarrow> tree option" where
  "view 0 h v = None"
| "view (Suc n) h (Ref a) =
     (if a < length h
      then (case h ! a of
              (Function (Native g), ps) \<Rightarrow> Some (NativeT a g)
            | (Function (Forward b), ps) \<Rightarrow>
                (case view n h (Ref b) of
                   None \<Rightarrow> None
                 | Some t \<Rightarrow> if is_function t then Some (ForwardT a t) else None)
            | (Array xs, ps) \<Rightarrow>
                (if ps = [] then map_option (ArrayT a) (those (map (view n h) xs)) else None)
            | (Plain p, ps) \<Rightarrow>
                (if distinct (map fst ps) \<and> ''__proto__'' \<notin> set (map fst ps)
                 then map_option (RecordT a (map fst ps)) (those (map (view n h) (map snd ps)))
                 else None))
      else None)"
| "view (Suc n) h v = Some (Leaf v)"

text \<open>
  Deep equality compares structures without the addresses, a forwarding function counting
  as the function it forwards to. \<open>addrs\<close> are the objects of a structure (its arrays,
  records and function objects); \<open>deps\<close> are all cells its view reads, which for a
  forwarding function include the target.
\<close>

fun strip :: "tree \<Rightarrow> tree" where
  "strip (Leaf v) = Leaf v"
| "strip (ArrayT a ts) = ArrayT 0 (map strip ts)"
| "strip (RecordT a ks ts) = RecordT 0 ks (map strip ts)"
| "strip (NativeT a g) = NativeT 0 g"
| "strip (ForwardT a t) = strip t"

fun addrs :: "tree \<Rightarrow> addr list" where
  "addrs (Leaf v) = []"
| "addrs (ArrayT a ts) = a # concat (map addrs ts)"
| "addrs (RecordT a ks ts) = a # concat (map addrs ts)"
| "addrs (NativeT a g) = [a]"
| "addrs (ForwardT a t) = [a]"

fun deps :: "tree \<Rightarrow> addr list" where
  "deps (Leaf v) = []"
| "deps (ArrayT a ts) = a # concat (map deps ts)"
| "deps (RecordT a ks ts) = a # concat (map deps ts)"
| "deps (NativeT a g) = [a]"
| "deps (ForwardT a t) = a # deps t"

text \<open>
  Two notions for the proofs: a store that only grew, every cell it had unchanged; and
  what a correct copy \<open>y\<close> of a structure \<open>t\<close> is.
\<close>

definition extends :: "heap \<Rightarrow> heap \<Rightarrow> bool" where
  "extends h h' \<longleftrightarrow> length h \<le> length h' \<and> (\<forall>a<length h. h' ! a = h ! a)"

definition good :: "nat \<Rightarrow> heap \<Rightarrow> tree \<Rightarrow> heap \<Rightarrow> val \<Rightarrow> tree \<Rightarrow> bool" where
  "good n h t h' y t' \<longleftrightarrow>
     view (Suc n) h' y = Some t' \<and> strip t' = strip t
     \<and> (\<forall>a\<in>set (addrs t'). length h \<le> a)
     \<and> (\<forall>a\<in>set (deps t'). a < length h \<longrightarrow> a \<in> set (deps t))"

subsection \<open>Outbound payloads\<close>

text \<open>
  The state that \<^verbatim>\<open>_interceptOutgoingPayload\<close> works on: the module variable
  \<^verbatim>\<open>capabilities\<close> (\<^verbatim>\<open>undefined\<close> until captured) and the store.
\<close>

record world =
  capabilities :: val
  store :: heap

text \<open>
  \<^verbatim>\<open>data.capabilities\<close> read and written. Reading from \<^verbatim>\<open>undefined\<close> or \<^verbatim>\<open>null\<close> throws;
  a primitive has no such property. Writing to anything but an object throws (the file is
  a module, hence strict code). Only own properties are modelled. A reference to no cell
  of the store is \<open>NotModelled\<close>.
\<close>

fun get_prop :: "heap \<Rightarrow> val \<Rightarrow> string \<Rightarrow> error + val" where
  "get_prop h Undefined k = Inl TypeError"
| "get_prop h Null k = Inl TypeError"
| "get_prop h (Ref a) k =
     (if a < length h
      then Inr (case map_of (snd (h ! a)) k of None \<Rightarrow> Undefined | Some v \<Rightarrow> v)
      else Inl NotModelled)"
| "get_prop h v k = Inr Undefined"

fun set_prop :: "heap \<Rightarrow> val \<Rightarrow> string \<Rightarrow> val \<Rightarrow> error + heap" where
  "set_prop h (Ref a) k v = (if a < length h then Inr (store_prop h a k v) else Inl NotModelled)"
| "set_prop h d k v = Inl TypeError"

text \<open>\<^verbatim>\<open>if (capabilities === undefined) capabilities = data.capabilities\<close>.\<close>

definition capture :: "world \<Rightarrow> val \<Rightarrow> error + world" where
  "capture w d =
     (if capabilities w = Undefined
      then (case get_prop (store w) d ''capabilities'' of
              Inl e \<Rightarrow> Inl e
            | Inr c \<Rightarrow> Inr (w\<lparr>capabilities := c\<rparr>))
      else Inr w)"

text \<open>
  \<^verbatim>\<open>_interceptOutgoingPayload(opcode, data, checkSessionEstablished)\<close>, the last argument
  optional (\<open>None\<close> when omitted). The result is the state after the call and either the
  returned triple or the exception. \<open>depth\<close> bounds the recursion of \<^verbatim>\<open>copy\<close>; a copy
  that does not return within it is reported as the \<^verbatim>\<open>RangeError\<close> of an exhausted stack.
\<close>

definition interceptOutgoingPayload ::
  "nat \<Rightarrow> world \<Rightarrow> int \<Rightarrow> val \<Rightarrow> bool option \<Rightarrow> world \<times> (error + int \<times> val \<times> bool)" where
  "interceptOutgoingPayload depth w opcode d checkSessionEstablished =
     (let flag = (case checkSessionEstablished of None \<Rightarrow> True | Some b \<Rightarrow> b) in
      if opcode = 2
      then (case capture w d of
              Inl e \<Rightarrow> (w, Inl e)
            | Inr w1 \<Rightarrow>
                (case copy depth (store w1) d of
                   None \<Rightarrow> (w1, Inl RangeError)
                 | Some (h2, d2) \<Rightarrow>
                     (case set_prop h2 d2 ''capabilities'' (capabilities w1) of
                        Inl e \<Rightarrow> (w1\<lparr>store := h2\<rparr>, Inl e)
                      | Inr h3 \<Rightarrow> (w1\<lparr>store := h3\<rparr>, Inr (opcode, d2, flag)))))
      else (w, Inr (opcode, d, flag)))"

section \<open>Properties\<close>

subsection \<open>Call traces: the round trip through the wire format\<close>

text \<open>
  The exponent found by \<open>expo0\<close> is the one of the binade of its argument, so
  \<open>to_double\<close> is off by at most half a unit in the last place: a relative error of at
  most \<open>2^(- 53)\<close> on every number that is not in the subnormal range.
\<close>

lemma bitlen_powi:
  assumes "0 < p"
  shows "2 powi (bitlen p - 1) \<le> (of_int p :: rat)" "(of_int p :: rat) < 2 powi bitlen p"
proof -
  from bitlen_bounds [OF assms]
  have a: "2 ^ nat (bitlen p - 1) \<le> p" and b: "p < 2 ^ nat (bitlen p)" by auto
  have p1: "1 \<le> bitlen p" using assms bitlen_eq_zero_iff [of p] bitlen_nonneg [of p] by linarith
  have "(of_int (2 ^ nat (bitlen p - 1)) :: rat) \<le> of_int p" using a by (simp only: of_int_le_iff)
  then show "2 powi (bitlen p - 1) \<le> (of_int p :: rat)"
    using p1 by (simp add: power_int_def)
  have "(of_int p :: rat) < of_int (2 ^ nat (bitlen p))" using b by (simp only: of_int_less_iff)
  then show "(of_int p :: rat) < 2 powi bitlen p"
    using p1 by (simp add: power_int_def)
qed

lemma expo0_bounds:
  assumes "0 < a"
  shows "2 powi (expo0 a + 52) \<le> a" "a < 2 powi (expo0 a + 53)"
proof -
  obtain p q where pq: "quotient_of a = (p, q)" by (cases "quotient_of a")
  have q: "0 < q" using pq quotient_of_denom_pos by blast
  have a: "a = of_int p / of_int q" using pq quotient_of_div by blast
  have p: "0 < p" using assms q unfolding a by (simp add: zero_less_divide_iff)
  define e where "e = bitlen p - bitlen q - 53"
  have qr: "(0::rat) < of_int q" using q by simp
  have lo: "2 powi (e + 52) \<le> a"
  proof -
    have "2 powi (e + 52) * (of_int q :: rat) \<le> 2 powi (e + 52) * 2 powi bitlen q"
      using bitlen_powi(2) [OF q] by (simp add: less_imp_le)
    also have "\<dots> = 2 powi (bitlen p - 1)" by (simp add: e_def flip: power_int_add)
    also have "\<dots> \<le> of_int p" using bitlen_powi(1) [OF p] .
    finally show ?thesis unfolding a using qr by (simp add: pos_le_divide_eq)
  qed
  have hi: "a < 2 powi (e + 54)"
  proof -
    have "(of_int p :: rat) < 2 powi bitlen p" using bitlen_powi(2) [OF p] .
    also have "\<dots> = 2 powi (e + 54) * 2 powi (bitlen q - 1)" by (simp add: e_def flip: power_int_add)
    also have "\<dots> \<le> 2 powi (e + 54) * of_int q"
      using bitlen_powi(1) [OF q] by simp
    finally show ?thesis unfolding a using qr by (simp add: pos_divide_less_eq)
  qed
  have x: "expo0 a = (if a < 2 powi (e + 53) then e else e + 1)"
    by (simp add: expo0_def pq e_def Let_def)
  show "2 powi (expo0 a + 52) \<le> a" using lo unfolding x by (auto simp: add.commute add.left_commute not_less)
  show "a < 2 powi (expo0 a + 53)" using hi unfolding x by (auto simp: add.commute add.left_commute)
qed

lemma rne_err: "\<bar>of_int (rne y) - y\<bar> \<le> 1 / 2"
proof -
  have "of_int \<lfloor>y\<rfloor> \<le> y" "y < of_int \<lfloor>y\<rfloor> + 1" by linarith+
  then show ?thesis unfolding rne_def Let_def by (auto simp: abs_le_iff)
qed

lemma expo_normal:
  assumes "2 powi (- 1022) \<le> a"
  shows "expo a = expo0 a"
proof -
  have pos: "0 < a" using assms by (rule less_le_trans [rotated]) simp
  have "(2::rat) powi (- 1022) < 2 powi (expo0 a + 53)"
    using assms expo0_bounds(2) [OF pos] by (rule le_less_trans)
  moreover have "(2::rat) powi (expo0 a + 53) \<le> 2 powi (- 1022)" if "expo0 a + 53 \<le> - 1022"
    using that by (intro power_int_increasing) auto
  ultimately have "- 1022 < expo0 a + 53" by fastforce
  then show ?thesis by (simp add: expo_def)
qed

lemma to_double_err:
  assumes "2 powi (- 1022) \<le> \<bar>x\<bar>"
  shows "\<bar>to_double x - x\<bar> \<le> \<bar>x\<bar> / 2 ^ 53"
proof -
  define a where "a = \<bar>x\<bar>"
  define s :: rat where "s = 2 powi expo0 a"
  define n where "n = rne (a / s)"
  have pos: "0 < a" using assms unfolding a_def by (rule less_le_trans [rotated]) simp
  have x0: "x \<noteq> 0" using pos by (simp add: a_def)
  have s: "0 < s" by (simp add: s_def)
  have e: "expo a = expo0 a" using assms unfolding a_def by (rule expo_normal)
  have td: "to_double x = sgn x * (of_int n * s)"
    using x0 by (simp add: to_double_def e n_def s_def flip: a_def)
  have x: "x = sgn x * a" by (simp add: a_def flip: abs_sgn) (metis abs_sgn mult.commute sgn_mult_abs)
  have "to_double x - x = sgn x * (of_int n * s - a)"
    unfolding td by (subst (2) x) (simp add: algebra_simps)
  then have 1: "\<bar>to_double x - x\<bar> = \<bar>of_int n * s - a\<bar>"
    using x0 by (simp add: abs_mult abs_sgn_eq)
  have "of_int n * s - a = (of_int n - a / s) * s" using s by (simp add: algebra_simps)
  then have "\<bar>of_int n * s - a\<bar> = \<bar>of_int n - a / s\<bar> * s" using s by (simp add: abs_mult)
  also have "\<dots> \<le> 1 / 2 * s" using rne_err [of "a / s"] s unfolding n_def
    by (intro mult_right_mono) auto
  also have "\<dots> = 2 powi (expo0 a + 52) / 2 ^ 53"
    by (simp add: s_def power_int_add)
  also have "\<dots> \<le> a / 2 ^ 53" using expo0_bounds(1) [OF pos] by (simp add: divide_right_mono)
  finally show ?thesis unfolding 1 a_def .
qed

lemma to_double_roundtrip:
  assumes "\<bar>m\<bar> \<le> 2 ^ 50"
  shows "round (to_double (to_double (of_int m / 1000) * 1000)) = m"
proof (cases "m = 0")
  case True
  then show ?thesis by (simp add: to_double_def)
next
  case False
  define M :: rat where "M = \<bar>of_int m\<bar>"
  define u :: rat where "u = 1 / 2 ^ 53"
  define z where "z = to_double (of_int m / 1000) * 1000"
  have M1: "1 \<le> M" using False unfolding M_def by (simp flip: of_int_abs)
  have M2: "M \<le> 2 ^ 50" using assms unfolding M_def
    by (simp flip: of_int_abs)
  have small: "(2::rat) powi (- 1022) \<le> 1 / 1000" by (simp add: power_int_minus field_simps)
  have "2 powi (- 1022) \<le> \<bar>of_int m / 1000 :: rat\<bar>"
    using M1 small by (simp add: M_def)
  from to_double_err [OF this] have "\<bar>to_double (of_int m / 1000) - of_int m / 1000\<bar> \<le> M / 1000 * u"
    by (simp add: M_def u_def)
  then have "\<bar>to_double (of_int m / 1000) - of_int m / 1000\<bar> * 1000 \<le> M * u" by simp
  moreover have "\<bar>z - of_int m\<bar> = \<bar>to_double (of_int m / 1000) - of_int m / 1000\<bar> * 1000"
    unfolding z_def by (simp add: abs_if)
  ultimately have d1: "\<bar>z - of_int m\<bar> \<le> M * u" by simp
  have u: "0 < u" "u \<le> 1 / 2" by (simp_all add: u_def)
  have "M - \<bar>z\<bar> \<le> \<bar>z - of_int m\<bar>" unfolding M_def by linarith
  then have zl: "M * (1 - u) \<le> \<bar>z\<bar>" using d1 by (simp add: algebra_simps)
  have "\<bar>z\<bar> - M \<le> \<bar>z - of_int m\<bar>" unfolding M_def by linarith
  then have zu: "\<bar>z\<bar> \<le> M * (1 + u)" using d1 by (simp add: algebra_simps)
  have "1 * (1 / 2) \<le> M * (1 - u)" using M1 u by (intro mult_mono) auto
  then have "2 powi (- 1022) \<le> \<bar>z\<bar>" using zl small by linarith
  from to_double_err [OF this] have "\<bar>to_double z - z\<bar> \<le> \<bar>z\<bar> * u" by (simp add: u_def)
  also have "\<dots> \<le> M * (1 + u) * u" using zu u by (intro mult_right_mono) auto
  finally have d2: "\<bar>to_double z - z\<bar> \<le> M * (1 + u) * u" .
  have "\<bar>to_double z - of_int m\<bar> \<le> \<bar>to_double z - z\<bar> + \<bar>z - of_int m\<bar>" by linarith
  also have "\<dots> \<le> M * (1 + u) * u + M * u" using d1 d2 by linarith
  also have "\<dots> = M * ((2 + u) * u)" by (simp add: algebra_simps)
  also have "\<dots> \<le> 2 ^ 50 * ((2 + u) * u)" using M2 u by (intro mult_right_mono) auto
  also have "\<dots> < 1 / 2" by (simp add: u_def)
  finally have "\<bar>to_double z - of_int m\<bar> < 1 / 2" .
  then show ?thesis unfolding z_def by (rule round_unique')
qed

lemma round_micros:
  "\<bar>m\<bar> \<le> 2 ^ 50 \<Longrightarrow> Math_round (js_mul (js_div (of_int m) 1000) 1000) = m"
  by (simp add: Math_round_def js_mul_def js_div_def to_double_roundtrip)

text \<open>
  Beyond this range the two roundings do change \<^verbatim>\<open>micros\<close>: \<open>2^53 - 1\<close> comes back as
  \<open>2^53 - 2\<close>, and \<open>2^52 - 7\<close> as \<open>2^52 - 6\<close>.
\<close>

lemma round_micros_large:
  "Math_round (js_mul (js_div 9007199254740991 1000) 1000) = 9007199254740990"
  "Math_round (js_mul (js_div 4503599627370489 1000) 1000) = 4503599627370490"
  by code_simp+

lemma toData_new_CallTrace: "micros_small d \<Longrightarrow> toData (new_CallTrace n d) = (n, with_calls d)"
proof (induction n d rule: new_CallTrace.induct)
  case (1 name micros calls)
  have "map (toData \<circ> (\<lambda>(n, d). new_CallTrace n d)) cs = map (\<lambda>(n, d). (n, with_calls d)) cs"
    if "cs = (case calls of None \<Rightarrow> [] | Some cs \<Rightarrow> cs)" for cs
    using 1 that by (auto simp: list_all_iff split: option.splits)
  moreover have "\<bar>micros\<bar> \<le> 2 ^ 50" using "1.prems" by simp
  ultimately show ?case by (simp add: round_micros)
qed

lemma map_fixed: "map f xs = xs \<longleftrightarrow> (\<forall>x\<in>set xs. f x = x)"
  by (induction xs) auto

lemma with_calls_fixed: "with_calls d = d \<longleftrightarrow> calls_present d"
proof (induction d rule: with_calls.induct)
  case (1 micros calls)
  show ?case
  proof (cases calls)
    case None
    then show ?thesis by simp
  next
    case (Some cs)
    have "(n, with_calls d) = (n, d) \<longleftrightarrow> calls_present d" if "(n, d) \<in> set cs" for n d
      using 1 Some that by auto
    then have "map (\<lambda>(n, d). (n, with_calls d)) cs = cs \<longleftrightarrow> list_all (\<lambda>(n, d). calls_present d) cs"
      unfolding map_fixed list_all_iff by fastforce
    then show ?thesis using Some by simp
  qed
qed

text \<open>
  C3. The claim says that a tuple list comes back from \<^verbatim>\<open>fromWire\<close> and \<^verbatim>\<open>toWire\<close>
  exactly, also when a payload omits the key \<^verbatim>\<open>calls\<close>. It does not: \<^verbatim>\<open>toData\<close> always
  writes the key, so the tuple \<^verbatim>\<open>["child", {micros: 1000}]\<close> comes back as
  \<^verbatim>\<open>["child", {micros: 1000, calls: []}]\<close>.
\<close>

theorem roundtrip_omitted_calls_counterexample:
  "toWire (fromWire [(''child'', CallTracePayload 1000 None)])
     \<noteq> [(''child'', CallTracePayload 1000 None)]"
  by (simp add: toWire_def fromWire_def)

text \<open>
  C3, as amended. For every tuple list whose \<^verbatim>\<open>micros\<close> are integers of magnitude at most
  \<open>2^50\<close>, at every depth, the round trip returns the list with the key \<^verbatim>\<open>calls\<close> written
  as an empty list wherever it was absent, every name and every \<^verbatim>\<open>micros\<close> unchanged
  (the two roundings of the doubles, in \<^verbatim>\<open>micros / 1000\<close> and in \<^verbatim>\<open>duration * 1000\<close>,
  are undone by \<^verbatim>\<open>Math.round\<close>); so it returns the list exactly if and only if every payload
  in it, at every depth, carries the key \<^verbatim>\<open>calls\<close>. The bound is needed: larger integers
  need not come back, as \<open>round_micros_large\<close> shows.
\<close>

theorem roundtrip_writes_calls:
  assumes "list_all (\<lambda>(n, d). micros_small d) t"
  shows "toWire (fromWire t) = map (\<lambda>(n, d). (n, with_calls d)) t
       \<and> (toWire (fromWire t) = t \<longleftrightarrow> list_all (\<lambda>(n, d). calls_present d) t)"
proof -
  have "toData (new_CallTrace n d) = (n, with_calls d)" if "(n, d) \<in> set t" for n d
    using assms that by (intro toData_new_CallTrace) (auto simp: list_all_iff)
  then have a: "toWire (fromWire t) = map (\<lambda>(n, d). (n, with_calls d)) t"
    by (auto simp: toWire_def fromWire_def)
  have "map (\<lambda>(n, d). (n, with_calls d)) t = t \<longleftrightarrow> list_all (\<lambda>(n, d). calls_present d) t"
    by (induction t) (auto simp: with_calls_fixed)
  with a show ?thesis by simp
qed

theorem roundtrip_writes_calls_witness:
  "list_all (\<lambda>(n, d). micros_small d)
     [(''root'', CallTracePayload 2500 (Some [(''child'', CallTracePayload 1000 (Some []))]))]
   \<and> toWire (fromWire [(''root'', CallTracePayload 2500 (Some [(''child'', CallTracePayload 1000 (Some []))]))])
     = [(''root'', CallTracePayload 2500 (Some [(''child'', CallTracePayload 1000 (Some []))]))]"
proof -
  have h: "list_all (\<lambda>(n, d). micros_small d)
     [(''root'', CallTracePayload 2500 (Some [(''child'', CallTracePayload 1000 (Some []))]))]"
    by simp
  from roundtrip_writes_calls [OF h] h show ?thesis by simp
qed

subsection \<open>Rendering a call trace\<close>

lemma split_append_sep: "c \<notin> set s \<Longrightarrow> split c (s @ c # t) = s # split c t"
  by (induction s) (auto split: list.splits)

text \<open>
  C9. The claim: for every list of nodes, \<^verbatim>\<open>buildTree\<close> gives exactly one line per node,
  \<^verbatim>\<open>"<name>: <durationMillis>"\<close>, prefixed with \<^verbatim>\<open>"|  "\<close> once per ancestor, and no other
  line. The code does not do this. A child's rendering ends with a newline, so splitting it
  leaves an empty last piece, which is prefixed too; and the pieces are joined without a
  final newline. For a root with two leaf children the text has the two extra lines
  \<^verbatim>\<open>"|  "\<close>; for a root with one child followed by a second root, the second root is
  written on the child's dangling \<^verbatim>\<open>"|  "\<close> and so appears one level deep although it has
  no ancestor. Both evaluations hold for every conversion \<open>fmt\<close> of a duration that writes
  no newline.
\<close>

theorem buildTree_extra_lines:
  assumes "\<And>d. CHR 0x0A \<notin> set (fmt d)"
  shows "buildTree fmt [CallTrace ''root'' d0 [CallTrace ''a'' d1 [], CallTrace ''b'' d2 []]]
           = ''root: '' @ fmt d0 @ ''\<newline>|  a: '' @ fmt d1 @ ''\<newline>|  \<newline>|  b: '' @ fmt d2 @ ''\<newline>|  ''
         \<and> buildTree fmt [CallTrace ''root'' d0 [CallTrace ''a'' d1 []], CallTrace ''next'' d2 []]
           = ''root: '' @ fmt d0 @ ''\<newline>|  a: '' @ fmt d1 @ ''\<newline>|  next: '' @ fmt d2 @ ''\<newline>''"
proof -
  have leaf: "split CHR 0x0A (n @ '': '' @ fmt d @ ''\<newline>'') = [n @ '': '' @ fmt d, []]"
    if "CHR 0x0A \<notin> set n" for n d
    using that assms [of d] split_append_sep [of "CHR 0x0A" "n @ '': '' @ fmt d" "[]"] by simp
  show ?thesis
    using leaf [of "''a''" d1] leaf [of "''b''" d2] by simp
qed

theorem buildTree_extra_lines_witness:
  "buildTree (\<lambda>d. ''1'') [CallTrace ''root'' 1 [CallTrace ''a'' 1 [], CallTrace ''b'' 1 []]]
           = ''root: 1\<newline>|  a: 1\<newline>|  \<newline>|  b: 1\<newline>|  ''
   \<and> buildTree (\<lambda>d. ''1'') [CallTrace ''root'' 1 [CallTrace ''a'' 1 []], CallTrace ''next'' 1 []]
           = ''root: 1\<newline>|  a: 1\<newline>|  next: 1\<newline>''"
  using buildTree_extra_lines [of "\<lambda>d. ''1''" 1 1 1] by simp

subsection \<open>Toggling a capability\<close>

lemma bit_toInt32: "bit (toInt32 x) j = bit x (min 31 j)"
  by (simp add: toInt32_def bit_signed_take_bit_iff)

lemma bit_shl: "k < 32 \<Longrightarrow> bit (js_shl 1 k) j = (min 31 j = k)"
  by (auto simp add: js_shl_def bit_toInt32 bit_push_bit_iff toInt32_def bit_signed_take_bit_iff bit_1_iff bit_exp_iff min_def)

lemma js_and_zero: "k < 32 \<Longrightarrow> js_and c (js_shl 1 k) \<noteq> 0 \<longleftrightarrow> bit c k"
proof -
  assume k: "k < 32"
  have "js_and c (js_shl 1 k) = 0 \<longleftrightarrow> (\<forall>j. \<not> bit (js_and c (js_shl 1 k)) j)"
    by (simp add: bit_eq_iff)
  also have "\<dots> \<longleftrightarrow> (\<forall>j. \<not> (bit c (min 31 j) \<and> min 31 j = k))"
    using k by (simp add: js_and_def bit_and_iff bit_toInt32 bit_shl)
  also have "\<dots> \<longleftrightarrow> \<not> bit c k"
  proof
    assume a: "\<forall>j. \<not> (bit c (min 31 j) \<and> min 31 j = k)"
    from k have "min 31 k = k" by simp
    with a [rule_format, of k] show "\<not> bit c k" by simp
  next
    assume "\<not> bit c k" then show "\<forall>j. \<not> (bit c (min 31 j) \<and> min 31 j = k)" by auto
  qed
  finally show ?thesis by simp
qed

lemma bit_toggle:
  assumes "k < 32"
  shows "bit (toggleCapability (js_shl 1 k) c) j = (bit c (min 31 j) \<noteq> (min 31 j = k))"
proof (cases "bit c k")
  case True
  then have "toggleCapability (js_shl 1 k) c = js_and c (js_not (js_shl 1 k))"
    using js_and_zero [OF assms, of c] by (simp add: toggleCapability_def)
  then show ?thesis
    using assms True
    by (auto simp: js_and_def js_not_def bit_and_iff bit_not_iff bit_toInt32 bit_shl)
next
  case False
  then have "toggleCapability (js_shl 1 k) c = js_or c (js_shl 1 k)"
    using js_and_zero [OF assms, of c] by (simp add: toggleCapability_def)
  then show ?thesis
    using assms False
    by (auto simp: js_or_def bit_or_iff bit_toInt32 bit_shl)
qed

lemma toggle_twice: "k < 32 \<Longrightarrow> toggleCapability (js_shl 1 k) (toggleCapability (js_shl 1 k) c) = toInt32 c"
  by (rule bit_eqI) (auto simp: bit_toggle bit_toInt32)

lemma toInt32_id: "- (2 ^ 31) \<le> c \<Longrightarrow> c < 2 ^ 31 \<Longrightarrow> toInt32 c = c"
  by (simp add: toInt32_def signed_take_bit_int_eq_self)

lemma toInt32_high: "2 ^ 31 \<le> c \<Longrightarrow> c < 2 ^ 32 \<Longrightarrow> toInt32 c = c - 2 ^ 32"
proof -
  assume c: "2 ^ 31 \<le> c" "c < 2 ^ 32"
  have "(c + 2 ^ 31) mod 2 ^ 32 = (c + 2 ^ 31 - 2 ^ 32) mod 2 ^ 32"
    by (simp only: minus_mod_self2)
  also have "\<dots> = c + 2 ^ 31 - 2 ^ 32" using c by (intro mod_pos_pos_trivial) auto
  finally show ?thesis
    by (simp add: toInt32_def signed_take_bit_eq_take_bit_shift take_bit_eq_mod)
qed

lemma known_values: "map snd KNOWN_CAPABILITIES = map (js_shl 1) [0..<32]"
  by (simp add: KNOWN_CAPABILITIES_def upt_rec eval_nat_numeral)

lemma known_value: "k < 32 \<Longrightarrow> snd (KNOWN_CAPABILITIES ! k) = js_shl 1 k"
proof -
  assume k: "k < 32"
  have "length KNOWN_CAPABILITIES = 32"
    by (simp add: KNOWN_CAPABILITIES_def)
  with k have "snd (KNOWN_CAPABILITIES ! k) = map snd KNOWN_CAPABILITIES ! k"
    by (simp only: nth_map)
  also have "\<dots> = js_shl 1 k"
    using k unfolding known_values by simp
  finally show ?thesis .
qed

text \<open>
  C10. The claim says that two toggles of a bit return every 32-bit bitmask to its original
  value. They do not when the bitmask is an unsigned 32-bit number with bit 31 set, as the
  number captured from an IDENTIFY payload may be: the bitwise operators of JavaScript
  return signed 32-bit numbers, so with \<^verbatim>\<open>capabilities\<close> at \<open>4294967295\<close> (all 32 bits
  set), two clicks on the checkbox of bit 0 leave \<open>- 1\<close>.
\<close>

theorem toggle_twice_unsigned_counterexample:
  "toggleCapability (snd (KNOWN_CAPABILITIES ! 0))
     (toggleCapability (snd (KNOWN_CAPABILITIES ! 0)) 4294967295) = - 1
   \<and> toggleCapability (snd (KNOWN_CAPABILITIES ! 0))
     (toggleCapability (snd (KNOWN_CAPABILITIES ! 0)) 4294967295) \<noteq> 4294967295"
proof -
  have "toggleCapability (snd (KNOWN_CAPABILITIES ! 0))
     (toggleCapability (snd (KNOWN_CAPABILITIES ! 0)) 4294967295) = toInt32 4294967295"
    by (simp add: known_value toggle_twice)
  also have "\<dots> = - 1" using toInt32_high [of 4294967295] by simp
  finally show ?thesis by simp
qed

text \<open>
  C10, as amended. For every bit position \<open>k\<close> from 0 to 31 and every current value \<open>c\<close> of
  the bitmask, with \<open>v\<close> the mask of the \<open>k\<close>-th entry of the table: toggling twice gives
  back the same 32 bits as \<open>c\<close>, and one toggle changes bit \<open>k\<close> of them and no other bit
  (it is the exclusive or with \<open>2^k\<close>). The 32 bits of a number are its \<^typ>\<open>32 word\<close>. As
  a JavaScript number the result of two toggles is the signed reading \<open>toInt32 c\<close> of these
  32 bits: it is \<open>c\<close> itself when \<open>c\<close> is in the signed 32-bit range, as every value left
  by a toggle is, and \<open>c - 2^32\<close> when \<open>c\<close> is an unsigned value with bit 31 set.
\<close>

theorem toggle_twice_restores:
  assumes "k < 32"
  shows "(word_of_int (toggleCapability (snd (KNOWN_CAPABILITIES ! k)) (toggleCapability (snd (KNOWN_CAPABILITIES ! k)) c)) :: 32 word)
           = word_of_int c
       \<and> (word_of_int (toggleCapability (snd (KNOWN_CAPABILITIES ! k)) c) :: 32 word)
           = word_of_int c XOR push_bit k 1
       \<and> toggleCapability (snd (KNOWN_CAPABILITIES ! k)) (toggleCapability (snd (KNOWN_CAPABILITIES ! k)) c) = toInt32 c
       \<and> (- (2 ^ 31) \<le> c \<and> c < 2 ^ 31
            \<longrightarrow> toggleCapability (snd (KNOWN_CAPABILITIES ! k)) (toggleCapability (snd (KNOWN_CAPABILITIES ! k)) c) = c)
       \<and> (2 ^ 31 \<le> c \<and> c < 2 ^ 32
            \<longrightarrow> toggleCapability (snd (KNOWN_CAPABILITIES ! k)) (toggleCapability (snd (KNOWN_CAPABILITIES ! k)) c) = c - 2 ^ 32)"
proof -
  have v: "snd (KNOWN_CAPABILITIES ! k) = js_shl 1 k"
    using assms by (rule known_value)
  have a: "(word_of_int (toInt32 c) :: 32 word) = word_of_int c"
    by (rule bit_eqI) (auto simp: bit_word_of_int_iff bit_toInt32)
  have b: "(word_of_int (toggleCapability (js_shl 1 k) c) :: 32 word) = word_of_int c XOR push_bit k 1"
    using assms
    by (intro bit_eqI) (auto simp: bit_word_of_int_iff bit_toggle bit_xor_iff bit_push_bit_iff bit_1_iff bit_exp_iff)
  show ?thesis
    unfolding v using assms a b by (simp add: toggle_twice toInt32_id toInt32_high)
qed

theorem toggle_twice_restores_witness:
  "(word_of_int (toggleCapability (snd (KNOWN_CAPABILITIES ! 31))
       (toggleCapability (snd (KNOWN_CAPABILITIES ! 31)) 5)) :: 32 word) = word_of_int 5
   \<and> toggleCapability (snd (KNOWN_CAPABILITIES ! 31))
       (toggleCapability (snd (KNOWN_CAPABILITIES ! 31)) 5) = 5
   \<and> toggleCapability (snd (KNOWN_CAPABILITIES ! 31))
       (toggleCapability (snd (KNOWN_CAPABILITIES ! 31)) 4294967290) = - 6"
proof -
  have k: "(31::nat) < 32" by simp
  have r: "- (2 ^ 31) \<le> (5::int) \<and> (5::int) < 2 ^ 31" by simp
  have u: "2 ^ 31 \<le> (4294967290::int) \<and> (4294967290::int) < 2 ^ 32" by simp
  have d: "(4294967290::int) - 2 ^ 32 = - 6" by simp
  from toggle_twice_restores [OF k, of 5] toggle_twice_restores [OF k, of 4294967290] r u d
  show ?thesis by metis
qed

subsection \<open>The READY normaliser\<close>

declare decimal.simps [simp del]

text \<open>
  C1. The claim: in a READY dispatch with normalisation enabled, a guild record without
  \<^verbatim>\<open>properties\<close> has its allowlisted fields moved into a new record \<^verbatim>\<open>properties\<close>, so that
  \<^verbatim>\<open>{id: "1", member_count: 5, name: "G"}\<close> becomes
  \<^verbatim>\<open>{name: "G", properties: {id: "1", member_count: 5}}\<close>. The code tests
  \<^verbatim>\<open>key in outerFields\<close>, which asks for a property of the array of that name, not for an
  element: it is false for \<^verbatim>\<open>id\<close> and \<^verbatim>\<open>member_count\<close> (and true for the index \<^verbatim>\<open>0\<close>).
  On the guild record of the claim the code moves nothing and adds an empty
  \<^verbatim>\<open>properties\<close>.
\<close>

theorem ready_guild_fields_not_moved:
  "interceptIncomingDispatchPayload True ''READY''
     (JObj [(''guilds'',
        JArr [JObj [(''id'', JStr ''1''), (''member_count'', JNum 5), (''name'', JStr ''G'')]])])
   = Inr (''READY'',
       JObj [(''guilds'',
         JArr [JObj [(''id'', JStr ''1''), (''member_count'', JNum 5), (''name'', JStr ''G''),
                     (''properties'', JObj [])]])])
   \<and> \<not> js_in ''id'' outerFields \<and> \<not> js_in ''member_count'' outerFields
   \<and> js_in ''0'' outerFields"
  by code_simp

lemma fix_guild_has_properties:
  "fix_guild g = Inr g' \<Longrightarrow> \<exists>ps v. g' = JObj ps \<and> map_of ps ''properties'' = Some v"
  by (cases g) (auto simp: update_conv' split: if_splits prod.splits)

lemma fix_guild_idem: "fix_guild g = Inr g' \<Longrightarrow> fix_guild g' = Inr g'"
  using fix_guild_has_properties [of g g'] by auto

lemma for_each_fix_guild_idem:
  "for_each fix_guild gs = Inr gs' \<Longrightarrow> for_each fix_guild gs' = Inr gs'"
  by (induction gs arbitrary: gs') (auto split: sum.splits dest: fix_guild_idem)

lemma for_each_JStr: "for_each fix_guild (map (\<lambda>c. JStr [c]) s) = Inr gs' \<Longrightarrow> s = []"
  by (cases s) (auto split: sum.splits)

lemma fix_guilds_idem: "fix_guilds d = Inr d' \<Longrightarrow> fix_guilds d' = Inr d'"
proof -
  assume a: "fix_guilds d = Inr d'"
  then obtain guilds gs gs' where g: "get_member d ''guilds'' = Inr guilds"
    and i: "iterate guilds = Inr gs" and f: "for_each fix_guild gs = Inr gs'"
    and d': "d' = (if isArray guilds then set_member d ''guilds'' (JArr gs') else d)"
    by (auto simp: fix_guilds_def split: sum.splits)
  show ?thesis
  proof (cases guilds)
    case (JArr xs)
    with g obtain ps where ps: "d = JObj ps" by (cases d) auto
    from JArr i have "gs = xs" by simp
    with JArr d' ps have "d' = JObj (AList.update ''guilds'' (JArr gs') ps)" by simp
    moreover from f have "for_each fix_guild gs' = Inr gs'" by (rule for_each_fix_guild_idem)
    ultimately show ?thesis by (simp add: fix_guilds_def update_conv')
  next
    case (JStr s)
    with i f have "s = []" using for_each_JStr by auto
    with JStr d' a show ?thesis by simp
  qed (use i in auto)
qed

lemma wrap_legacy_keeps:
  "wrap_legacy k d = Inr d1 \<Longrightarrow> k' \<noteq> k \<Longrightarrow> get_member d1 k' = get_member d k'"
  by (cases d) (auto simp: wrap_legacy_def update_conv' split: sum.splits if_splits)

lemma wrap_legacy_settled:
  "wrap_legacy k d = Inr d1 \<Longrightarrow> \<exists>v. get_member d1 k = Inr v \<and> \<not> isArray v"
  by (cases d) (auto simp: wrap_legacy_def update_conv' versioned_def split: sum.splits if_splits option.splits)

lemma settled_wrap: "get_member d k = Inr v \<Longrightarrow> \<not> isArray v \<Longrightarrow> wrap_legacy k d = Inr d"
  by (simp add: wrap_legacy_def)

lemma fix_guilds_keeps:
  "fix_guilds d = Inr d' \<Longrightarrow> k \<noteq> ''guilds'' \<Longrightarrow> get_member d' k = get_member d k"
  by (cases d) (auto simp: fix_guilds_def update_conv' split: sum.splits if_splits)

lemma normalise_idem:
  assumes "interceptIncomingDispatchPayload fixReady type d = Inr (type', d')"
  shows "interceptIncomingDispatchPayload fixReady type' d' = Inr (type', d')"
proof (cases "type = ''READY'' \<and> fixReady")
  case False
  with assms show ?thesis by (auto simp: interceptIncomingDispatchPayload_def)
next
  case True
  with assms obtain d1 d2 where 1: "wrap_legacy ''read_state'' d = Inr d1"
    and 2: "wrap_legacy ''user_guild_settings'' d1 = Inr d2"
    and 3: "fix_guilds d2 = Inr d'" and t: "type' = type"
    by (auto simp: interceptIncomingDispatchPayload_def split: sum.splits)
  from 1 obtain v where "get_member d1 ''read_state'' = Inr v" "\<not> isArray v"
    using wrap_legacy_settled by blast
  then have "get_member d' ''read_state'' = Inr v"
    using wrap_legacy_keeps [OF 2, of "''read_state''"] fix_guilds_keeps [OF 3, of "''read_state''"]
    by simp
  with \<open>\<not> isArray v\<close> have a: "wrap_legacy ''read_state'' d' = Inr d'" by (simp add: settled_wrap)
  from 2 obtain w where "get_member d2 ''user_guild_settings'' = Inr w" "\<not> isArray w"
    using wrap_legacy_settled by blast
  then have "get_member d' ''user_guild_settings'' = Inr w"
    using fix_guilds_keeps [OF 3, of "''user_guild_settings''"] by simp
  with \<open>\<not> isArray w\<close> have b: "wrap_legacy ''user_guild_settings'' d' = Inr d'" by (simp add: settled_wrap)
  from 3 have c: "fix_guilds d' = Inr d'" by (rule fix_guilds_idem)
  from True t a b c show ?thesis by (simp add: interceptIncomingDispatchPayload_def)
qed
lemma fix_guild_record: "is_record g \<Longrightarrow> \<exists>g'. fix_guild g = Inr g' \<and> is_record g'"
  by (cases g) (auto split: prod.splits)

lemma fix_guild_primitive: "is_primitive g \<Longrightarrow> fix_guild g = Inl TypeError"
  by (cases g) auto

lemma for_each_records:
  "list_all is_record gs \<Longrightarrow> \<exists>gs'. for_each fix_guild gs = Inr gs'"
proof (induction gs)
  case Nil
  then show ?case by simp
next
  case (Cons g gs)
  then obtain g' gs' where "fix_guild g = Inr g'" "for_each fix_guild gs = Inr gs'"
    using fix_guild_record [of g] by auto
  then show ?case by simp
qed

lemma for_each_primitive:
  "list_all is_record pre \<Longrightarrow> is_primitive g \<Longrightarrow> for_each fix_guild (pre @ g # post) = Inl TypeError"
proof (induction pre)
  case Nil
  then show ?case by (simp add: fix_guild_primitive)
next
  case (Cons p pre)
  then obtain p' where "fix_guild p = Inr p'" using fix_guild_record [of p] by auto
  with Cons show ?case by simp
qed

lemma wrap_legacy_record:
  "\<exists>ps'. wrap_legacy k (JObj ps) = Inr (JObj ps') \<and> (\<forall>k'. k' \<noteq> k \<longrightarrow> map_of ps' k' = map_of ps k')"
  by (auto simp: wrap_legacy_def update_conv')

lemma ready_prefix:
  "\<exists>ps2. interceptIncomingDispatchPayload True ''READY'' (JObj ps)
            = (case fix_guilds (JObj ps2) of Inl e \<Rightarrow> Inl e | Inr d3 \<Rightarrow> Inr (''READY'', d3))
        \<and> map_of ps2 ''guilds'' = map_of ps ''guilds''"
proof -
  obtain ps1 where 1: "wrap_legacy ''read_state'' (JObj ps) = Inr (JObj ps1)"
    "map_of ps1 ''guilds'' = map_of ps ''guilds''"
    using wrap_legacy_record [of "''read_state''" ps] by auto
  obtain ps2 where 2: "wrap_legacy ''user_guild_settings'' (JObj ps1) = Inr (JObj ps2)"
    "map_of ps2 ''guilds'' = map_of ps1 ''guilds''"
    using wrap_legacy_record [of "''user_guild_settings''" ps1] by auto
  from 1 2 show ?thesis by (auto simp: interceptIncomingDispatchPayload_def)
qed

text \<open>
  C2. The claim: a READY payload with a missing or ill-typed field is handled by skipping
  the malformed part, and no input makes \<^verbatim>\<open>_interceptIncomingDispatchPayload\<close> crash. The
  code has no handler and no check of \<^verbatim>\<open>data.guilds\<close>: a payload without a guild list
  throws a \<^verbatim>\<open>TypeError\<close>, and so does a guild list whose first element is \<^verbatim>\<open>null\<close>, the
  record after it never reached.
\<close>

theorem dispatch_crash_counterexample:
  "interceptIncomingDispatchPayload True ''READY'' (JObj [(''read_state'', JArr [])]) = Inl TypeError
   \<and> interceptIncomingDispatchPayload True ''READY''
        (JObj [(''guilds'', JArr [JNull, JObj [(''id'', JStr ''1'')]])]) = Inl TypeError"
  by code_simp

text \<open>
  C2, as amended. The interceptor has no recovery path. For an event type other than READY,
  or with normalisation disabled, it returns the type and the payload unchanged and cannot
  throw. For a READY payload with normalisation enabled that is a record: if its guild list
  is an array of records, the call returns; if the guild list is absent, the call throws a
  \<^verbatim>\<open>TypeError\<close>; and if the guild list holds, after any number of records, an element that
  is not an object, the call throws a \<^verbatim>\<open>TypeError\<close> at that element, whatever follows it.
\<close>

theorem dispatch_has_no_recovery:
  "(type \<noteq> ''READY'' \<or> \<not> fixReady \<longrightarrow> interceptIncomingDispatchPayload fixReady type d = Inr (type, d))
   \<and> (map_of ps ''guilds'' = Some (JArr gs) \<and> list_all is_record gs \<longrightarrow>
        (\<exists>d'. interceptIncomingDispatchPayload True ''READY'' (JObj ps) = Inr (''READY'', d')))
   \<and> (map_of ps ''guilds'' = None \<longrightarrow>
        interceptIncomingDispatchPayload True ''READY'' (JObj ps) = Inl TypeError)
   \<and> (map_of ps ''guilds'' = Some (JArr (pre @ g # post)) \<and> list_all is_record pre \<and> is_primitive g \<longrightarrow>
        interceptIncomingDispatchPayload True ''READY'' (JObj ps) = Inl TypeError)"
proof (intro conjI impI)
  assume "type \<noteq> ''READY'' \<or> \<not> fixReady"
  then show "interceptIncomingDispatchPayload fixReady type d = Inr (type, d)"
    by (auto simp: interceptIncomingDispatchPayload_def)
next
  assume a: "map_of ps ''guilds'' = Some (JArr gs) \<and> list_all is_record gs"
  obtain ps2 where p: "interceptIncomingDispatchPayload True ''READY'' (JObj ps)
            = (case fix_guilds (JObj ps2) of Inl e \<Rightarrow> Inl e | Inr d3 \<Rightarrow> Inr (''READY'', d3))"
    "map_of ps2 ''guilds'' = map_of ps ''guilds''"
    using ready_prefix by blast
  from a obtain gs' where "for_each fix_guild gs = Inr gs'" using for_each_records by blast
  with a p show "\<exists>d'. interceptIncomingDispatchPayload True ''READY'' (JObj ps) = Inr (''READY'', d')"
    by (simp add: fix_guilds_def)
next
  assume a: "map_of ps ''guilds'' = None"
  obtain ps2 where p: "interceptIncomingDispatchPayload True ''READY'' (JObj ps)
            = (case fix_guilds (JObj ps2) of Inl e \<Rightarrow> Inl e | Inr d3 \<Rightarrow> Inr (''READY'', d3))"
    "map_of ps2 ''guilds'' = map_of ps ''guilds''"
    using ready_prefix by blast
  with a show "interceptIncomingDispatchPayload True ''READY'' (JObj ps) = Inl TypeError"
    by (simp add: fix_guilds_def)
next
  assume a: "map_of ps ''guilds'' = Some (JArr (pre @ g # post)) \<and> list_all is_record pre \<and> is_primitive g"
  obtain ps2 where p: "interceptIncomingDispatchPayload True ''READY'' (JObj ps)
            = (case fix_guilds (JObj ps2) of Inl e \<Rightarrow> Inl e | Inr d3 \<Rightarrow> Inr (''READY'', d3))"
    "map_of ps2 ''guilds'' = map_of ps ''guilds''"
    using ready_prefix by blast
  from a have "for_each fix_guild (pre @ g # post) = Inl TypeError" by (simp add: for_each_primitive)
  with a p show "interceptIncomingDispatchPayload True ''READY'' (JObj ps) = Inl TypeError"
    by (simp add: fix_guilds_def)
qed

theorem dispatch_has_no_recovery_witness:
  "(\<exists>d'. interceptIncomingDispatchPayload True ''READY''
            (JObj [(''guilds'', JArr [JObj [(''id'', JStr ''1'')]])]) = Inr (''READY'', d'))
   \<and> interceptIncomingDispatchPayload True ''READY'' (JObj [(''read_state'', JArr [])]) = Inl TypeError
   \<and> interceptIncomingDispatchPayload True ''READY''
        (JObj [(''guilds'', JArr [JObj [(''id'', JStr ''1'')], JNull, JObj [(''id'', JStr ''2'')]])]) = Inl TypeError
   \<and> interceptIncomingDispatchPayload True ''MESSAGE_CREATE'' JNull = Inr (''MESSAGE_CREATE'', JNull)"
proof -
  have 1: "\<exists>d'. interceptIncomingDispatchPayload True ''READY''
            (JObj [(''guilds'', JArr [JObj [(''id'', JStr ''1'')]])]) = Inr (''READY'', d')"
    using dispatch_has_no_recovery [of _ _ _ "[(''guilds'', JArr [JObj [(''id'', JStr ''1'')]])]" "[JObj [(''id'', JStr ''1'')]]"]
    by simp
  have 2: "interceptIncomingDispatchPayload True ''READY'' (JObj [(''read_state'', JArr [])]) = Inl TypeError"
    using dispatch_has_no_recovery [of _ _ _ "[(''read_state'', JArr [])]"]
    by simp
  have 3: "interceptIncomingDispatchPayload True ''READY''
        (JObj [(''guilds'', JArr [JObj [(''id'', JStr ''1'')], JNull, JObj [(''id'', JStr ''2'')]])]) = Inl TypeError"
    using dispatch_has_no_recovery [of _ _ _ "[(''guilds'', JArr [JObj [(''id'', JStr ''1'')], JNull, JObj [(''id'', JStr ''2'')]])]" _ "[JObj [(''id'', JStr ''1'')]]" JNull "[JObj [(''id'', JStr ''2'')]]"]
    by simp
  have 4: "interceptIncomingDispatchPayload True ''MESSAGE_CREATE'' JNull = Inr (''MESSAGE_CREATE'', JNull)"
    using dispatch_has_no_recovery [of "''MESSAGE_CREATE''" True JNull] by simp
  from 1 2 3 4 show ?thesis by blast
qed

text \<open>
  C4. For every READY payload with normalisation enabled, normalising the result of a
  normalisation gives the same as normalising once (an exception of the first application
  being the outcome of both). In particular a field whose value is not an array is not
  wrapped, so that the versioned object written by the first application is not wrapped
  again, and a guild record that has a key \<^verbatim>\<open>properties\<close> is left as it is.
\<close>

theorem normalise_twice:
  "(case interceptIncomingDispatchPayload True ''READY'' d of
      Inl e \<Rightarrow> Inl e
    | Inr (type', d') \<Rightarrow> interceptIncomingDispatchPayload True type' d')
   = interceptIncomingDispatchPayload True ''READY'' d
   \<and> (\<forall>k v. get_member d k = Inr v \<and> \<not> isArray v \<longrightarrow> wrap_legacy k d = Inr d)
   \<and> (\<forall>k d1. wrap_legacy k d = Inr d1 \<longrightarrow> wrap_legacy k d1 = Inr d1)
   \<and> (\<forall>guildData. map_of guildData ''properties'' \<noteq> None \<longrightarrow>
         fix_guild (JObj guildData) = Inr (JObj guildData))"
proof (intro conjI allI impI)
  show "(case interceptIncomingDispatchPayload True ''READY'' d of
      Inl e \<Rightarrow> Inl e
    | Inr (type', d') \<Rightarrow> interceptIncomingDispatchPayload True type' d')
   = interceptIncomingDispatchPayload True ''READY'' d"
  proof (cases "interceptIncomingDispatchPayload True ''READY'' d")
    case (Inl e)
    then show ?thesis by simp
  next
    case (Inr r)
    obtain type' d' where r: "r = (type', d')" by (cases r)
    with Inr have "interceptIncomingDispatchPayload True type' d' = Inr (type', d')"
      by (auto dest: normalise_idem)
    with Inr r show ?thesis by simp
  qed
next
  fix k v assume "get_member d k = Inr v \<and> \<not> isArray v"
  then show "wrap_legacy k d = Inr d" by (simp add: settled_wrap)
next
  fix k d1 assume w: "wrap_legacy k d = Inr d1"
  from wrap_legacy_settled [OF w] obtain v where "get_member d1 k = Inr v" "\<not> isArray v" by blast
  then show "wrap_legacy k d1 = Inr d1" by (simp add: settled_wrap)
next
  fix guildData :: "(string \<times> jsval) list"
  assume "map_of guildData ''properties'' \<noteq> None"
  then show "fix_guild (JObj guildData) = Inr (JObj guildData)" by auto
qed

theorem normalise_twice_witness:
  "interceptIncomingDispatchPayload True ''READY''
     (JObj [(''read_state'', versioned (JArr [JNum 1])),
            (''guilds'', JArr [JObj [(''name'', JStr ''G''), (''properties'', JObj [(''id'', JStr ''1'')])]])])
   = Inr (''READY'',
      JObj [(''read_state'', versioned (JArr [JNum 1])),
            (''guilds'', JArr [JObj [(''name'', JStr ''G''), (''properties'', JObj [(''id'', JStr ''1'')])]])])"
proof -
  let ?d = "JObj [(''read_state'', JArr [JNum 1]), (''guilds'', JArr [JObj [(''name'', JStr ''G''), (''properties'', JObj [(''id'', JStr ''1'')])]])]"
  let ?d' = "JObj [(''read_state'', versioned (JArr [JNum 1])),
            (''guilds'', JArr [JObj [(''name'', JStr ''G''), (''properties'', JObj [(''id'', JStr ''1'')])]])]"
  have once: "interceptIncomingDispatchPayload True ''READY'' ?d = Inr (''READY'', ?d')"
    by code_simp
  from normalise_twice [of ?d] show ?thesis unfolding once by simp
qed

subsection \<open>The deep copy\<close>

lemma those_map_Some:
  "those (map f xs) = Some ys \<longleftrightarrow> list_all2 (\<lambda>x y. f x = Some y) xs ys"
  by (induction xs arbitrary: ys) (auto simp: list_all2_Cons1 split: option.splits)

lemma extends_refl: "extends h h"
  by (simp add: extends_def)

lemma extends_trans: "extends h h1 \<Longrightarrow> extends h1 h2 \<Longrightarrow> extends h h2"
  by (auto simp: extends_def)

lemma extends_alloc: "extends h (fst (alloc h c))"
  by (simp add: extends_def alloc_def nth_append)

lemma extends_take: "extends h h' \<longleftrightarrow> length h \<le> length h' \<and> take (length h) h' = h"
  by (auto simp: extends_def list_eq_iff_nth_eq)

lemma copy_elems_extends:
  assumes "\<And>h x h' y. f h x = Some (h', y) \<Longrightarrow> extends h h'"
  shows "copy_elems f h xs = Some (h', ys) \<Longrightarrow> extends h h'"
proof (induction xs arbitrary: h h' ys)
  case Nil
  then show ?case by (simp add: extends_refl)
next
  case (Cons x xs)
  from Cons.prems obtain h1 y ys' where f: "f h x = Some (h1, y)"
    and r: "copy_elems f h1 xs = Some (h', ys')"
    by (auto split: option.splits)
  from f have "extends h h1" by (rule assms)
  moreover from r have "extends h1 h'" by (rule Cons.IH)
  ultimately show ?case by (rule extends_trans)
qed

lemma store_prop_fresh:
  "length h \<le> ret \<Longrightarrow> extends h h1 \<Longrightarrow> extends h (store_prop h1 ret k v)"
  by (auto simp: extends_def store_prop_def)

lemma copy_entries_extends:
  assumes "\<And>h x h' y. f h x = Some (h', y) \<Longrightarrow> extends h h'"
  shows "copy_entries f ret h kvs = Some h' \<Longrightarrow> length h0 \<le> ret \<Longrightarrow> extends h0 h \<Longrightarrow> extends h0 h'"
proof (induction kvs arbitrary: h h')
  case Nil
  then show ?case by simp
next
  case (Cons kv kvs)
  obtain k v where kv: "kv = (k, v)" by (cases kv)
  from Cons.prems(1) kv obtain h1 v' where f: "f h v = Some (h1, v')"
    and r: "copy_entries f ret (store_prop h1 ret k v') kvs = Some h'"
    by (auto split: option.splits)
  from f have "extends h h1" by (rule assms)
  with Cons.prems(3) have "extends h0 h1" by (rule extends_trans)
  with Cons.prems(2) have "extends h0 (store_prop h1 ret k v')" by (rule store_prop_fresh)
  with Cons.IH [OF r Cons.prems(2)] show ?case .
qed

lemma write_proto_fresh:
  "length h \<le> ret \<Longrightarrow> extends h h1 \<Longrightarrow> extends h (write_proto h1 ret p)"
  by (cases p) (auto simp: extends_def)

lemma copy_extends: "copy n h x = Some (h', y) \<Longrightarrow> extends h h'"
proof (induction n arbitrary: h x h' y)
  case 0
  then show ?case by simp
next
  case (Suc n)
  show ?case
  proof (cases x)
    case (Ref a)
    with Suc.prems have a: "a < length h" by (auto split: if_splits)
    obtain kd ps where c: "h ! a = (kd, ps)" by (cases "h ! a")
    show ?thesis
    proof (cases kd)
      case (Function f)
      with Suc.prems Ref a c show ?thesis using extends_alloc [of h] by (auto simp: alloc_def)
    next
      case (Array xs)
      with Suc.prems Ref a c obtain h1 ys where e: "copy_elems (copy n) h xs = Some (h1, ys)"
        and h': "h' = fst (alloc h1 (Array ys, []))"
        by (auto split: option.splits)
      from e have "extends h h1" by (rule copy_elems_extends [rotated]) (rule Suc.IH)
      with h' show ?thesis using extends_alloc extends_trans by blast
    next
      case (Plain p)
      with Suc.prems Ref a c obtain h1 where e: "copy_entries (copy n) (length h) (h @ [(Plain ObjectProto, [])]) ps = Some h1"
        and h': "h' = (if read_proto p \<noteq> Some ObjectProto then write_proto h1 (length h) (read_proto p) else h1)"
        by (auto simp: alloc_def split: option.splits)
      have "extends h (h @ [(Plain ObjectProto, [])])" using extends_alloc [of h] by (simp add: alloc_def)
      with e have "extends h h1" by (intro copy_entries_extends [of "copy n" "length h" _ ps h1 h]) (auto intro: Suc.IH)
      with h' show ?thesis by (auto intro: write_proto_fresh)
    qed
  qed (use Suc.prems in \<open>auto simp: extends_refl\<close>)
qed

declare view.simps(2) [simp del]

lemma view_Ref_cases:
  assumes "view (Suc n) h (Ref a) = Some t"
  obtains g ps where "h ! a = (Function (Native g), ps)" "t = NativeT a g"
  | b t' ps where "h ! a = (Function (Forward b), ps)" "view n h (Ref b) = Some t'" "is_function t'" "t = ForwardT a t'"
  | xs ts where "h ! a = (Array xs, [])" "list_all2 (\<lambda>x t. view n h x = Some t) xs ts" "t = ArrayT a ts"
  | p ps ts where "h ! a = (Plain p, ps)" "distinct (map fst ps)" "''__proto__'' \<notin> set (map fst ps)"
      "list_all2 (\<lambda>kv t. view n h (snd kv) = Some t) ps ts" "t = RecordT a (map fst ps) ts"
proof -
  obtain kd ps where c: "h ! a = (kd, ps)" by (cases "h ! a")
  show ?thesis
  proof (cases kd)
    case (Plain p)
    with assms c that(4) show ?thesis
      by (auto simp: view.simps(2) those_map_Some split: if_splits)
  next
    case (Array xs)
    with assms c that(3) show ?thesis
      by (auto simp: view.simps(2) those_map_Some split: if_splits)
  next
    case (Function f)
    with assms c that(1,2) show ?thesis
      by (cases f) (auto simp: view.simps(2) split: if_splits option.splits)
  qed
qed

lemma view_Ref_length: "view n h (Ref a) = Some t \<Longrightarrow> a < length h"
  by (cases n) (auto simp: view.simps(2) split: if_splits)

lemma list_all2_witness:
  "list_all2 P xs ys \<Longrightarrow> y \<in> set ys \<Longrightarrow> \<exists>x\<in>set xs. P x y"
  by (induction rule: list_all2_induct) auto

lemma view_deps: "view n h v = Some t \<Longrightarrow> a \<in> set (deps t) \<Longrightarrow> a < length h"
proof (induction n arbitrary: v t a)
  case 0
  then show ?case by simp
next
  case (Suc n)
  show ?case
  proof (cases v)
    case (Ref r)
    note r = view_Ref_length [OF Suc.prems(1) [unfolded Ref]]
    from Suc.prems(1) [unfolded Ref] show ?thesis
    proof (cases rule: view_Ref_cases)
      case (1 g ps)
      with Suc.prems(2) r show ?thesis by simp
    next
      case (2 b t' ps)
      from Suc.prems(2) 2(4) have "a = r \<or> a \<in> set (deps t')" by simp
      then show ?thesis using r Suc.IH [OF 2(2)] by blast
    next
      case (3 xs ts)
      from Suc.prems(2) 3(3) have "a = r \<or> (\<exists>t'\<in>set ts. a \<in> set (deps t'))" by simp
      then show ?thesis
      proof
        assume "a = r" with r show ?thesis by simp
      next
        assume "\<exists>t'\<in>set ts. a \<in> set (deps t')"
        then obtain t' where t': "t' \<in> set ts" "a \<in> set (deps t')" by blast
        from list_all2_witness [OF 3(2) t'(1)] obtain x where "view n h x = Some t'" by blast
        then show ?thesis using t'(2) by (rule Suc.IH)
      qed
    next
      case (4 p ps ts)
      from Suc.prems(2) 4(5) have "a = r \<or> (\<exists>t'\<in>set ts. a \<in> set (deps t'))" by simp
      then show ?thesis
      proof
        assume "a = r" with r show ?thesis by simp
      next
        assume "\<exists>t'\<in>set ts. a \<in> set (deps t')"
        then obtain t' where t': "t' \<in> set ts" "a \<in> set (deps t')" by blast
        from list_all2_witness [OF 4(4) t'(1)] obtain x :: "string \<times> val" where "view n h (snd x) = Some t'" by blast
        then show ?thesis using t'(2) by (rule Suc.IH)
      qed
    qed
  next
    case Undefined with Suc.prems show ?thesis by auto
  next
    case Null with Suc.prems show ?thesis by auto
  next
    case (Bool b) with Suc.prems show ?thesis by auto
  next
    case (Num i) with Suc.prems show ?thesis by auto
  next
    case (BigInt i) with Suc.prems show ?thesis by auto
  next
    case (Str s) with Suc.prems show ?thesis by auto
  qed
qed

lemma view_frame:
  "view n h v = Some t \<Longrightarrow> (\<And>a. a \<in> set (deps t) \<Longrightarrow> a < length h' \<and> h' ! a = h ! a)
     \<Longrightarrow> view n h' v = Some t"
proof (induction n arbitrary: v t)
  case 0
  then show ?case by simp
next
  case (Suc n)
  show ?case
  proof (cases v)
    case (Ref r)
    from Suc.prems(1) [unfolded Ref] show ?thesis
    proof (cases rule: view_Ref_cases)
      case (1 g ps)
      with Suc.prems(2) [of r] Ref show ?thesis by (simp add: view.simps(2))
    next
      case (2 b t' ps)
      have "view n h' (Ref b) = Some t'"
        using 2(2) Suc.prems(2) unfolding 2(4) by (intro Suc.IH) auto
      with 2 Suc.prems(2) [of r] Ref show ?thesis by (simp add: view.simps(2))
    next
      case (3 xs ts)
      have "list_all2 (\<lambda>x t. view n h' x = Some t) xs ts"
        using 3(2)
      proof (rule list.rel_mono_strong)
        fix x t' assume "x \<in> set xs" "t' \<in> set ts" "view n h x = Some t'"
        then show "view n h' x = Some t'"
          using Suc.IH [of x t'] Suc.prems(2) 3(3) by auto
      qed
      with 3 Suc.prems(2) [of r] Ref show ?thesis by (simp add: view.simps(2) those_map_Some [symmetric])
    next
      case (4 p ps ts)
      have "list_all2 (\<lambda>kv t. view n h' (snd kv) = Some t) ps ts"
        using 4(4)
      proof (rule list.rel_mono_strong)
        fix x :: "string \<times> val" and t'
        assume "x \<in> set ps" "t' \<in> set ts" "view n h (snd x) = Some t'"
        then show "view n h' (snd x) = Some t'"
          using Suc.IH [of "snd x" t'] Suc.prems(2) 4(5) by auto
      qed
      moreover have "r < length h' \<and> h' ! r = h ! r"
        using Suc.prems(2) [of r] 4(5) by simp
      ultimately show ?thesis using 4 Ref by (simp add: view.simps(2) those_map_Some [symmetric] comp_def)
    qed
  qed (use Suc.prems in auto)
qed

lemma view_extends: "view n h v = Some t \<Longrightarrow> extends h h' \<Longrightarrow> view n h' v = Some t"
  by (rule view_frame) (auto simp: extends_def dest: view_deps)

lemma view_mono: "view n h v = Some t \<Longrightarrow> view (Suc n) h v = Some t"
proof (induction n arbitrary: v t)
  case 0
  then show ?case by simp
next
  case (Suc n)
  show ?case
  proof (cases v)
    case (Ref r)
    note r = view_Ref_length [OF Suc.prems(1) [unfolded Ref]]
    from Suc.prems(1) [unfolded Ref] show ?thesis
    proof (cases rule: view_Ref_cases)
      case (1 g ps)
      with r Ref show ?thesis by (simp add: view.simps(2))
    next
      case (2 b t' ps)
      from Suc.IH [OF 2(2)] have "view (Suc n) h (Ref b) = Some t'" .
      with 2 r Ref show ?thesis by (simp add: view.simps(2) [of "Suc n"])
    next
      case (3 xs ts)
      have "list_all2 (\<lambda>x t. view (Suc n) h x = Some t) xs ts"
        using 3(2) by (rule list_all2_mono) (rule Suc.IH)
      then have "those (map (view (Suc n) h) xs) = Some ts"
        by (simp add: those_map_Some)
      with 3 r Ref show ?thesis by (simp add: view.simps(2) [of "Suc n"])
    next
      case (4 p ps ts)
      have "list_all2 (\<lambda>kv t. view (Suc n) h (snd kv) = Some t) ps ts"
        using 4(4) by (rule list_all2_mono) (rule Suc.IH)
      then have "those (map (view (Suc n) h) (map snd ps)) = Some ts"
        by (simp add: those_map_Some comp_def)
      with 4 r Ref show ?thesis by (simp add: view.simps(2) [of "Suc n"])
    qed
  qed (use Suc.prems in auto)
qed

lemma extends_length: "extends h h' \<Longrightarrow> length h \<le> length h'"
  by (simp add: extends_def)

lemma copy_elems_view:
  assumes IH: "\<And>h x t. view n h x = Some t \<Longrightarrow> \<exists>h' y t'. copy n h x = Some (h', y) \<and> good n h t h' y t'"
  shows "list_all2 (\<lambda>x t. view n h x = Some t) xs ts \<Longrightarrow>
         \<exists>h' ys ts'. copy_elems (copy n) h xs = Some (h', ys)
           \<and> list_all2 (\<lambda>y t'. view (Suc n) h' y = Some t') ys ts'
           \<and> map strip ts' = map strip ts
           \<and> (\<forall>t'\<in>set ts'. \<forall>a\<in>set (addrs t'). length h \<le> a)
           \<and> (\<forall>t'\<in>set ts'. \<forall>a\<in>set (deps t'). a < length h \<longrightarrow> (\<exists>t\<in>set ts. a \<in> set (deps t)))"
proof (induction xs arbitrary: h ts)
  case Nil
  then show ?case by simp
next
  case (Cons x xs)
  from Cons.prems obtain t ts0 where ts: "ts = t # ts0" and x: "view n h x = Some t"
    and xs: "list_all2 (\<lambda>x t. view n h x = Some t) xs ts0"
    by (auto simp: list_all2_Cons1)
  from IH [OF x] obtain h1 y t1 where c: "copy n h x = Some (h1, y)" and g: "good n h t h1 y t1"
    by blast
  from c have e1: "extends h h1" by (rule copy_extends)
  have "list_all2 (\<lambda>x t. view n h1 x = Some t) xs ts0"
    using xs by (rule list_all2_mono) (rule view_extends [OF _ e1])
  from Cons.IH [OF this] obtain h2 ys ts1 where r: "copy_elems (copy n) h1 xs = Some (h2, ys)"
    and v: "list_all2 (\<lambda>y t'. view (Suc n) h2 y = Some t') ys ts1"
    and s: "map strip ts1 = map strip ts0"
    and f: "\<forall>t'\<in>set ts1. \<forall>a\<in>set (addrs t'). length h1 \<le> a"
    and d: "\<forall>t'\<in>set ts1. \<forall>a\<in>set (deps t'). a < length h1 \<longrightarrow> (\<exists>t\<in>set ts0. a \<in> set (deps t))"
    by blast
  from r have e2: "extends h1 h2" by (rule copy_elems_extends [rotated]) (rule copy_extends)
  from g have "view (Suc n) h1 y = Some t1" by (simp add: good_def)
  then have vy: "view (Suc n) h2 y = Some t1" using e2 by (rule view_extends)
  have le: "length h \<le> length h1" using e1 by (rule extends_length)
  have "copy_elems (copy n) h (x # xs) = Some (h2, y # ys)" using c r by simp
  moreover have "list_all2 (\<lambda>y t'. view (Suc n) h2 y = Some t') (y # ys) (t1 # ts1)"
    using vy v by simp
  moreover have "map strip (t1 # ts1) = map strip ts" using g s ts by (simp add: good_def)
  moreover have "\<forall>t'\<in>set (t1 # ts1). \<forall>a\<in>set (addrs t'). length h \<le> a"
    using g f le by (fastforce simp: good_def)
  moreover have "\<forall>t'\<in>set (t1 # ts1). \<forall>a\<in>set (deps t'). a < length h \<longrightarrow> (\<exists>t\<in>set ts. a \<in> set (deps t))"
  proof (intro ballI impI)
    fix t' a assume t': "t' \<in> set (t1 # ts1)" and a: "a \<in> set (deps t')" "a < length h"
    show "\<exists>t\<in>set ts. a \<in> set (deps t)"
    proof (cases "t' = t1")
      case True
      with g a have "a \<in> set (deps t)" by (simp add: good_def)
      with ts show ?thesis by simp
    next
      case False
      with t' have "t' \<in> set ts1" by simp
      moreover from a le have "a < length h1" by simp
      ultimately obtain t0 where "t0 \<in> set ts0" "a \<in> set (deps t0)" using d a(1) by blast
      with ts show ?thesis by auto
    qed
  qed
  ultimately show ?case by blast
qed

lemma update_fresh_key: "k \<notin> fst ` set al \<Longrightarrow> AList.update k v al = al @ [(k, v)]"
  by (induction al) auto

lemma length_store_prop: "length (store_prop h a k v) = length h"
  by (simp add: store_prop_def)

lemma nth_store_prop_other: "b \<noteq> a \<Longrightarrow> store_prop h a k v ! b = h ! b"
  by (simp add: store_prop_def)

lemma nth_store_prop_same:
  "a < length h \<Longrightarrow> store_prop h a k v ! a = (fst (h ! a), AList.update k v (snd (h ! a)))"
  by (simp add: store_prop_def)

lemma copy_entries_view:
  assumes IH: "\<And>h x t. view n h x = Some t \<Longrightarrow> \<exists>h' y t'. copy n h x = Some (h', y) \<and> good n h t h' y t'"
  shows "list_all2 (\<lambda>kv t. view n hc (snd kv) = Some t) kvs ts \<Longrightarrow>
         ret < length hc \<Longrightarrow> hc ! ret = (Plain ObjectProto, acc) \<Longrightarrow>
         distinct (map fst acc @ map fst kvs) \<Longrightarrow>
         (\<forall>t\<in>set ts. \<forall>a\<in>set (deps t). a < ret) \<Longrightarrow>
         \<exists>h' ys ts'. copy_entries (copy n) ret hc kvs = Some h'
           \<and> length hc \<le> length h'
           \<and> (\<forall>a<length hc. a \<noteq> ret \<longrightarrow> h' ! a = hc ! a)
           \<and> h' ! ret = (Plain ObjectProto, acc @ zip (map fst kvs) ys)
           \<and> length ys = length kvs
           \<and> list_all2 (\<lambda>y t'. view (Suc n) h' y = Some t') ys ts'
           \<and> map strip ts' = map strip ts
           \<and> (\<forall>t'\<in>set ts'. \<forall>a\<in>set (addrs t'). length hc \<le> a)
           \<and> (\<forall>t'\<in>set ts'. \<forall>a\<in>set (deps t'). a < length hc \<longrightarrow> (\<exists>t\<in>set ts. a \<in> set (deps t)))"
proof (induction kvs arbitrary: hc acc ts)
  case Nil
  then show ?case by simp
next
  case (Cons kv kvs)
  obtain k v where kv: "kv = (k, v)" by (cases kv)
  from Cons.prems(1) kv obtain t ts0 where ts: "ts = t # ts0" and x: "view n hc v = Some t"
    and xs: "list_all2 (\<lambda>kv t. view n hc (snd kv) = Some t) kvs ts0"
    by (auto simp: list_all2_Cons1)
  note ret = Cons.prems(2) and cell = Cons.prems(3) and dist = Cons.prems(4) and low = Cons.prems(5)
  from IH [OF x] obtain h1 y t1 where c: "copy n hc v = Some (h1, y)" and g: "good n hc t h1 y t1"
    by blast
  from c have e1: "extends hc h1" by (rule copy_extends)
  then have le1: "length hc \<le> length h1" by (rule extends_length)
  define h2 where "h2 = store_prop h1 ret k y"
  have len2: "length h2 = length h1" by (simp add: h2_def length_store_prop)
  have other2: "h2 ! a = h1 ! a" if "a \<noteq> ret" for a
    using that by (simp add: h2_def nth_store_prop_other)
  have old1: "h1 ! a = hc ! a" if "a < length hc" for a
    using e1 that by (simp add: extends_def)
  have "k \<notin> fst ` set acc" using dist kv by auto
  then have cell2: "h2 ! ret = (Plain ObjectProto, acc @ [(k, y)])"
    using ret le1 cell old1 [OF ret] by (simp add: h2_def nth_store_prop_same update_fresh_key)
  have views2: "list_all2 (\<lambda>kv t. view n h2 (snd kv) = Some t) kvs ts0"
    using xs
  proof (rule list.rel_mono_strong)
    fix z :: "string \<times> val" and t'
    assume "z \<in> set kvs" and t': "t' \<in> set ts0" and z: "view n hc (snd z) = Some t'"
    show "view n h2 (snd z) = Some t'"
      using z
    proof (rule view_frame)
      fix a assume "a \<in> set (deps t')"
      with low t' ts have "a < ret" by simp
      with ret le1 show "a < length h2 \<and> h2 ! a = hc ! a"
        by (simp add: len2 other2 old1)
    qed
  qed
  have "\<exists>h' ys ts'. copy_entries (copy n) ret h2 kvs = Some h'
           \<and> length h2 \<le> length h'
           \<and> (\<forall>a<length h2. a \<noteq> ret \<longrightarrow> h' ! a = h2 ! a)
           \<and> h' ! ret = (Plain ObjectProto, (acc @ [(k, y)]) @ zip (map fst kvs) ys)
           \<and> length ys = length kvs
           \<and> list_all2 (\<lambda>y t'. view (Suc n) h' y = Some t') ys ts'
           \<and> map strip ts' = map strip ts0
           \<and> (\<forall>t'\<in>set ts'. \<forall>a\<in>set (addrs t'). length h2 \<le> a)
           \<and> (\<forall>t'\<in>set ts'. \<forall>a\<in>set (deps t'). a < length h2 \<longrightarrow> (\<exists>t\<in>set ts0. a \<in> set (deps t)))"
  proof (rule Cons.IH [OF views2 _ cell2])
    show "ret < length h2" using ret le1 len2 by simp
    show "distinct (map fst (acc @ [(k, y)]) @ map fst kvs)" using dist kv by auto
    show "\<forall>t\<in>set ts0. \<forall>a\<in>set (deps t). a < ret" using low ts by simp
  qed
  then obtain h' ys ts1 where r: "copy_entries (copy n) ret h2 kvs = Some h'"
    and len': "length h2 \<le> length h'"
    and frame': "\<forall>a<length h2. a \<noteq> ret \<longrightarrow> h' ! a = h2 ! a"
    and cell': "h' ! ret = (Plain ObjectProto, (acc @ [(k, y)]) @ zip (map fst kvs) ys)"
    and lys: "length ys = length kvs"
    and v: "list_all2 (\<lambda>y t'. view (Suc n) h' y = Some t') ys ts1"
    and s: "map strip ts1 = map strip ts0"
    and f: "\<forall>t'\<in>set ts1. \<forall>a\<in>set (addrs t'). length h2 \<le> a"
    and d: "\<forall>t'\<in>set ts1. \<forall>a\<in>set (deps t'). a < length h2 \<longrightarrow> (\<exists>t\<in>set ts0. a \<in> set (deps t))"
    by blast
  have dep1: "a \<noteq> ret" if "a \<in> set (deps t1)" for a
  proof (cases "a < length hc")
    case True
    with g that have "a \<in> set (deps t)" by (simp add: good_def)
    with low ts have "a < ret" by simp
    then show ?thesis by simp
  next
    case False
    with ret show ?thesis by simp
  qed
  from g have vy1: "view (Suc n) h1 y = Some t1" by (simp add: good_def)
  have vy: "view (Suc n) h' y = Some t1"
    using vy1
  proof (rule view_frame)
    fix a assume a: "a \<in> set (deps t1)"
    then have "a < length h1" using vy1 by (rule view_deps [rotated])
    moreover from a have "a \<noteq> ret" by (rule dep1)
    ultimately show "a < length h' \<and> h' ! a = h1 ! a"
      using len' frame' len2 other2 by simp
  qed
  have "copy_entries (copy n) ret hc (kv # kvs) = Some h'"
    using c r kv by (simp add: h2_def)
  moreover have "length hc \<le> length h'" using le1 len2 len' by simp
  moreover have "\<forall>a<length hc. a \<noteq> ret \<longrightarrow> h' ! a = hc ! a"
    using frame' le1 len2 other2 old1 by simp
  moreover have "h' ! ret = (Plain ObjectProto, acc @ zip (map fst (kv # kvs)) (y # ys))"
    using cell' kv by simp
  moreover have "length (y # ys) = length (kv # kvs)" using lys by simp
  moreover have "list_all2 (\<lambda>y t'. view (Suc n) h' y = Some t') (y # ys) (t1 # ts1)"
    using vy v by simp
  moreover have "map strip (t1 # ts1) = map strip ts" using g s ts by (simp add: good_def)
  moreover have "\<forall>t'\<in>set (t1 # ts1). \<forall>a\<in>set (addrs t'). length hc \<le> a"
    using g f le1 len2 by (fastforce simp: good_def)
  moreover have "\<forall>t'\<in>set (t1 # ts1). \<forall>a\<in>set (deps t'). a < length hc \<longrightarrow> (\<exists>t\<in>set ts. a \<in> set (deps t))"
  proof (intro ballI impI)
    fix t' a assume t': "t' \<in> set (t1 # ts1)" and a: "a \<in> set (deps t')" "a < length hc"
    show "\<exists>t\<in>set ts. a \<in> set (deps t)"
    proof (cases "t' = t1")
      case True
      with g a have "a \<in> set (deps t)" by (simp add: good_def)
      with ts show ?thesis by simp
    next
      case False
      with t' have "t' \<in> set ts1" by simp
      moreover from a le1 len2 have "a < length h2" by simp
      ultimately obtain t0 where "t0 \<in> set ts0" "a \<in> set (deps t0)" using d a(1) by blast
      with ts show ?thesis by auto
    qed
  qed
  ultimately show ?case by blast
qed

lemma is_function_view:
  "view (Suc n) h (Ref a) = Some t \<Longrightarrow> h ! a = (Function f, ps) \<Longrightarrow> is_function t"
  by (erule view_Ref_cases) auto

lemma nth_write_proto_other: "b \<noteq> a \<Longrightarrow> write_proto h a p ! b = h ! b"
  by (cases p) auto

lemma nth_write_proto_same:
  "a < length h \<Longrightarrow> h ! a = (Plain p, ps) \<Longrightarrow> \<exists>p'. write_proto h a q ! a = (Plain p', ps)"
  by (cases q) auto

lemma length_write_proto: "length (write_proto h a p) = length h"
  by (cases p) auto

lemma copy_view:
  "view n h x = Some t \<Longrightarrow> \<exists>h' y t'. copy n h x = Some (h', y) \<and> good n h t h' y t'"
proof (induction n arbitrary: h x t)
  case 0
  then show ?case by simp
next
  case (Suc n)
  show ?case
  proof (cases x)
    case (Ref a)
    note v = Suc.prems [unfolded Ref]
    note a = view_Ref_length [OF v]
    have fun_case: ?thesis if cell: "h ! a = (Function f, ps)" for f ps
    proof -
      define h' where "h' = h @ [(Function (Forward a), [])]"
      have c: "copy (Suc n) h x = Some (h', Ref (length h))"
        using Ref a cell by (simp add: alloc_def h'_def)
      have "extends h h'" by (simp add: extends_def h'_def nth_append)
      with v have "view (Suc n) h' (Ref a) = Some t" by (rule view_extends)
      moreover have "is_function t" using v cell by (rule is_function_view)
      ultimately have "view (Suc (Suc n)) h' (Ref (length h)) = Some (ForwardT (length h) t)"
        by (simp add: view.simps(2) [of "Suc n"] h'_def)
      then have "good (Suc n) h t h' (Ref (length h)) (ForwardT (length h) t)"
        by (simp add: good_def)
      with c show ?thesis by blast
    qed
    from v show ?thesis
    proof (cases rule: view_Ref_cases)
      case (1 g ps)
      then show ?thesis by (intro fun_case)
    next
      case (2 b t' ps)
      then show ?thesis by (intro fun_case)
    next
      case (3 xs ts)
      from copy_elems_view [of n, OF Suc.IH 3(2)]
      obtain h1 ys ts' where e: "copy_elems (copy n) h xs = Some (h1, ys)"
        and vs: "list_all2 (\<lambda>y t'. view (Suc n) h1 y = Some t') ys ts'"
        and s: "map strip ts' = map strip ts"
        and f: "\<forall>t'\<in>set ts'. \<forall>a\<in>set (addrs t'). length h \<le> a"
        and d: "\<forall>t'\<in>set ts'. \<forall>a\<in>set (deps t'). a < length h \<longrightarrow> (\<exists>t\<in>set ts. a \<in> set (deps t))"
        by blast
      from e have e1: "extends h h1" by (rule copy_elems_extends [rotated]) (rule copy_extends)
      define h' where "h' = h1 @ [(Array ys, [])]"
      have c: "copy (Suc n) h x = Some (h', Ref (length h1))"
        using Ref a 3(1) e by (simp add: alloc_def h'_def)
      have e2: "extends h1 h'" by (simp add: extends_def h'_def nth_append)
      have "list_all2 (\<lambda>y t'. view (Suc n) h' y = Some t') ys ts'"
        using vs by (rule list_all2_mono) (rule view_extends [OF _ e2])
      then have "those (map (view (Suc n) h') ys) = Some ts'" by (simp add: those_map_Some)
      then have "view (Suc (Suc n)) h' (Ref (length h1)) = Some (ArrayT (length h1) ts')"
        by (simp add: view.simps(2) [of "Suc n"] h'_def)
      moreover have "strip (ArrayT (length h1) ts') = strip t" using s 3(3) by simp
      moreover have "\<forall>a\<in>set (addrs (ArrayT (length h1) ts')). length h \<le> a"
        using f extends_length [OF e1] by auto
      moreover have "\<forall>a\<in>set (deps (ArrayT (length h1) ts')). a < length h \<longrightarrow> a \<in> set (deps t)"
        using d extends_length [OF e1] 3(3) by auto
      ultimately have "good (Suc n) h t h' (Ref (length h1)) (ArrayT (length h1) ts')"
        by (simp add: good_def)
      with c show ?thesis by blast
    next
      case (4 p ps ts)
      define h0 where "h0 = h @ [(Plain ObjectProto, [])]"
      have e0: "extends h h0" by (simp add: extends_def h0_def nth_append)
      have views0: "list_all2 (\<lambda>kv t. view n h0 (snd kv) = Some t) ps ts"
        using 4(4) by (rule list_all2_mono) (rule view_extends [OF _ e0])
      have low: "\<forall>t\<in>set ts. \<forall>b\<in>set (deps t). b < length h"
      proof (intro ballI)
        fix t' b assume t': "t' \<in> set ts" and b: "b \<in> set (deps t')"
        from list_all2_witness [OF 4(4) t'] obtain kv :: "string \<times> val"
          where "view n h (snd kv) = Some t'" by blast
        then show "b < length h" using b by (rule view_deps)
      qed
      have "\<exists>h1 ys ts'. copy_entries (copy n) (length h) h0 ps = Some h1
           \<and> length h0 \<le> length h1
           \<and> (\<forall>a<length h0. a \<noteq> length h \<longrightarrow> h1 ! a = h0 ! a)
           \<and> h1 ! length h = (Plain ObjectProto, [] @ zip (map fst ps) ys)
           \<and> length ys = length ps
           \<and> list_all2 (\<lambda>y t'. view (Suc n) h1 y = Some t') ys ts'
           \<and> map strip ts' = map strip ts
           \<and> (\<forall>t'\<in>set ts'. \<forall>a\<in>set (addrs t'). length h0 \<le> a)
           \<and> (\<forall>t'\<in>set ts'. \<forall>a\<in>set (deps t'). a < length h0 \<longrightarrow> (\<exists>t\<in>set ts. a \<in> set (deps t)))"
      proof (rule copy_entries_view [of n, OF Suc.IH views0])
        show "length h < length h0" by (simp add: h0_def)
        show "h0 ! length h = (Plain ObjectProto, [])" by (simp add: h0_def)
        show "distinct (map fst [] @ map fst ps)" using 4(2) by simp
        show "\<forall>t\<in>set ts. \<forall>a\<in>set (deps t). a < length h" by (rule low)
      qed
      then obtain h1 ys ts' where e: "copy_entries (copy n) (length h) h0 ps = Some h1"
        and len1: "length h0 \<le> length h1"
        and cell1: "h1 ! length h = (Plain ObjectProto, zip (map fst ps) ys)"
        and lys: "length ys = length ps"
        and vs: "list_all2 (\<lambda>y t'. view (Suc n) h1 y = Some t') ys ts'"
        and s: "map strip ts' = map strip ts"
        and f: "\<forall>t'\<in>set ts'. \<forall>a\<in>set (addrs t'). length h0 \<le> a"
        and d: "\<forall>t'\<in>set ts'. \<forall>a\<in>set (deps t'). a < length h0 \<longrightarrow> (\<exists>t\<in>set ts. a \<in> set (deps t))"
        by auto
      define h' where "h' = (if read_proto p \<noteq> Some ObjectProto
                              then write_proto h1 (length h) (read_proto p) else h1)"
      have c: "copy (Suc n) h x = Some (h', Ref (length h))"
        using Ref a 4(1) e by (simp add: alloc_def h'_def h0_def)
      have len': "length h' = length h1" by (simp add: h'_def length_write_proto)
      have other': "h' ! b = h1 ! b" if "b \<noteq> length h" for b
        using that by (simp add: h'_def nth_write_proto_other)
      have lt: "length h < length h1" using len1 by (simp add: h0_def)
      have "\<exists>p'. h' ! length h = (Plain p', zip (map fst ps) ys)"
      proof (cases "read_proto p \<noteq> Some ObjectProto")
        case True
        then show ?thesis using nth_write_proto_same [OF lt cell1] by (simp add: h'_def)
      next
        case False
        then show ?thesis using cell1 by (simp add: h'_def)
      qed
      then obtain p' where cell': "h' ! length h = (Plain p', zip (map fst ps) ys)" by blast
      have dep_ne: "b \<noteq> length h" if "t' \<in> set ts'" "b \<in> set (deps t')" for t' b
      proof
        assume "b = length h"
        with that d have "\<exists>t\<in>set ts. b \<in> set (deps t)" by (auto simp: h0_def)
        with low \<open>b = length h\<close> show False by auto
      qed
      have "list_all2 (\<lambda>y t'. view (Suc n) h' y = Some t') ys ts'"
        using vs
      proof (rule list.rel_mono_strong)
        fix y t' assume "y \<in> set ys" and t': "t' \<in> set ts'" and y: "view (Suc n) h1 y = Some t'"
        show "view (Suc n) h' y = Some t'"
          using y
        proof (rule view_frame)
          fix b assume b: "b \<in> set (deps t')"
          then have "b < length h1" using y by (rule view_deps [rotated])
          moreover from t' b have "b \<noteq> length h" by (rule dep_ne)
          ultimately show "b < length h' \<and> h' ! b = h1 ! b" by (simp add: len' other')
        qed
      qed
      then have "those (map (view (Suc n) h') ys) = Some ts'" by (simp add: those_map_Some)
      moreover have mf: "map fst (zip (map fst ps) ys) = map fst ps"
        and "map snd (zip (map fst ps) ys) = ys"
        using lys by simp_all
      moreover have "fst ` set (zip (map fst ps) ys) = fst ` set ps"
        using arg_cong [OF mf, of set] by simp
      ultimately have "view (Suc (Suc n)) h' (Ref (length h)) = Some (RecordT (length h) (map fst ps) ts')"
        using cell' lt len' 4(2,3) by (simp add: view.simps(2) [of "Suc n"])
      moreover have "strip (RecordT (length h) (map fst ps) ts') = strip t" using s 4(5) by simp
      moreover have "\<forall>a\<in>set (addrs (RecordT (length h) (map fst ps) ts')). length h \<le> a"
        using f by (fastforce simp: h0_def)
      moreover have "\<forall>a\<in>set (deps (RecordT (length h) (map fst ps) ts')). a < length h \<longrightarrow> a \<in> set (deps t)"
        using d 4(5) by (fastforce simp: h0_def)
      ultimately have "good (Suc n) h t h' (Ref (length h)) (RecordT (length h) (map fst ps) ts')"
        by (simp add: good_def)
      with c show ?thesis by blast
    qed
  next
    case Undefined with Suc.prems show ?thesis by (auto simp: good_def)
  next
    case Null with Suc.prems show ?thesis by (auto simp: good_def)
  next
    case (Bool b) with Suc.prems show ?thesis by (auto simp: good_def)
  next
    case (Num i) with Suc.prems show ?thesis by (auto simp: good_def)
  next
    case (BigInt i) with Suc.prems show ?thesis by (auto simp: good_def)
  next
    case (Str s) with Suc.prems show ?thesis by (auto simp: good_def)
  qed
qed

lemma copy_elems_mono:
  assumes "\<And>h x r. f h x = Some r \<Longrightarrow> g h x = Some r"
  shows "copy_elems f h xs = Some r \<Longrightarrow> copy_elems g h xs = Some r"
proof (induction xs arbitrary: h r)
  case Nil
  then show ?case by simp
next
  case (Cons x xs)
  from Cons.prems obtain h1 y h2 ys where f: "f h x = Some (h1, y)"
    and e: "copy_elems f h1 xs = Some (h2, ys)" and r: "r = (h2, y # ys)"
    by (auto split: option.splits)
  from f have "g h x = Some (h1, y)" by (rule assms)
  moreover from e have "copy_elems g h1 xs = Some (h2, ys)" by (rule Cons.IH)
  ultimately show ?case using r by simp
qed

lemma copy_entries_mono:
  assumes "\<And>h x r. f h x = Some r \<Longrightarrow> g h x = Some r"
  shows "copy_entries f ret h kvs = Some r \<Longrightarrow> copy_entries g ret h kvs = Some r"
proof (induction kvs arbitrary: h r)
  case Nil
  then show ?case by simp
next
  case (Cons kv kvs)
  obtain k v where kv: "kv = (k, v)" by (cases kv)
  from Cons.prems kv obtain h1 y where f: "f h v = Some (h1, y)"
    and e: "copy_entries f ret (store_prop h1 ret k y) kvs = Some r"
    by (auto split: option.splits)
  from f have "g h v = Some (h1, y)" by (rule assms)
  moreover from e have "copy_entries g ret (store_prop h1 ret k y) kvs = Some r" by (rule Cons.IH)
  ultimately show ?case using kv by simp
qed

lemma copy_mono: "copy n h x = Some r \<Longrightarrow> copy (Suc n) h x = Some r"
proof (induction n arbitrary: h x r)
  case 0
  then show ?case by simp
next
  case (Suc n)
  show ?case
  proof (cases x)
    case (Ref a)
    with Suc.prems have a: "a < length h" by (auto split: if_splits)
    obtain kd ps where c: "h ! a = (kd, ps)" by (cases "h ! a")
    show ?thesis
    proof (cases kd)
      case (Function f)
      with Suc.prems Ref a c show ?thesis by simp
    next
      case (Array xs)
      with Suc.prems Ref a c obtain h1 ys where e: "copy_elems (copy n) h xs = Some (h1, ys)"
        and r: "r = alloc h1 (Array ys, [])"
        by (auto split: option.splits)
      from e have "copy_elems (copy (Suc n)) h xs = Some (h1, ys)"
        by (rule copy_elems_mono [rotated]) (rule Suc.IH)
      with Ref a c Array r show ?thesis by (simp del: copy.simps add: copy.simps(2) [of "Suc n"])
    next
      case (Plain p)
      with Suc.prems Ref a c obtain h1
        where e: "copy_entries (copy n) (length h) (h @ [(Plain ObjectProto, [])]) ps = Some h1"
        and r: "r = (if read_proto p \<noteq> Some ObjectProto
                     then write_proto h1 (length h) (read_proto p) else h1, Ref (length h))"
        by (auto simp: alloc_def split: option.splits)
      from e have "copy_entries (copy (Suc n)) (length h) (h @ [(Plain ObjectProto, [])]) ps = Some h1"
        by (rule copy_entries_mono [rotated]) (rule Suc.IH)
      with Ref a c Plain r show ?thesis
        by (simp del: copy.simps add: copy.simps(2) [of "Suc n"] alloc_def)
    qed
  qed (use Suc.prems in auto)
qed

lemma copy_mono_le: "n \<le> m \<Longrightarrow> copy n h x = Some r \<Longrightarrow> copy m h x = Some r"
  by (induction m) (auto simp: le_Suc_eq dest: copy_mono)

lemma view_mono_le: "n \<le> m \<Longrightarrow> view n h x = Some t \<Longrightarrow> view m h x = Some t"
  by (induction m) (auto simp: le_Suc_eq dest: view_mono)

lemma call_function:
  "view n h x = Some t \<Longrightarrow> is_function t \<Longrightarrow> \<exists>g. call natives n h x args = Some (natives g h args)"
proof (induction n arbitrary: x t)
  case 0
  then show ?case by simp
next
  case (Suc n)
  show ?case
  proof (cases x)
    case (Ref a)
    note a = view_Ref_length [OF Suc.prems(1) [unfolded Ref]]
    from Suc.prems(1) [unfolded Ref] show ?thesis
    proof (cases rule: view_Ref_cases)
      case (1 g ps)
      with a Ref show ?thesis by auto
    next
      case (2 b t' ps)
      from Suc.IH [OF 2(2,3)] obtain g where "call natives n h (Ref b) args = Some (natives g h args)"
        by blast
      with 2 a Ref show ?thesis by auto
    next
      case (3 xs ts)
      with Suc.prems(2) show ?thesis by simp
    next
      case (4 p ps ts)
      with Suc.prems(2) show ?thesis by simp
    qed
  qed (use Suc.prems in auto)
qed

lemma copy_entries_kind:
  assumes "\<And>h x h' y. f h x = Some (h', y) \<Longrightarrow> extends h h'"
  shows "copy_entries f ret h kvs = Some h' \<Longrightarrow> ret < length h
         \<Longrightarrow> ret < length h' \<and> fst (h' ! ret) = fst (h ! ret)"
proof (induction kvs arbitrary: h)
  case Nil
  then show ?case by simp
next
  case (Cons kv kvs)
  obtain k v where kv: "kv = (k, v)" by (cases kv)
  from Cons.prems(1) kv obtain h1 y where f: "f h v = Some (h1, y)"
    and e: "copy_entries f ret (store_prop h1 ret k y) kvs = Some h'"
    by (auto split: option.splits)
  from f have x: "extends h h1" by (rule assms)
  with Cons.prems(2) have r1: "ret < length h1" "h1 ! ret = h ! ret" by (auto simp: extends_def)
  then have "ret < length (store_prop h1 ret k y)" by (simp add: length_store_prop)
  from Cons.IH [OF e this] r1 show ?case by (simp add: nth_store_prop_same)
qed

lemma copy_kind:
  assumes "copy m h (Ref a) = Some (h', y)"
  shows "\<exists>r. y = Ref r \<and> length h \<le> r \<and> r < length h'
            \<and> (case fst (h ! a) of
                  Function f \<Rightarrow> fst (h' ! r) = Function (Forward a)
                | Array xs \<Rightarrow> (\<exists>ys. fst (h' ! r) = Array ys)
                | Plain p \<Rightarrow> (\<exists>p'. fst (h' ! r) = Plain p'))"
proof (cases m)
  case 0
  with assms show ?thesis by simp
next
  case (Suc n)
  with assms have a: "a < length h" by (auto split: if_splits)
  obtain kd ps where cell: "h ! a = (kd, ps)" by (cases "h ! a")
  show ?thesis
  proof (cases kd)
    case (Function f)
    with assms Suc a cell show ?thesis by (auto simp: alloc_def)
  next
    case (Array xs)
    with assms Suc a cell obtain h1 ys where e: "copy_elems (copy n) h xs = Some (h1, ys)"
      and r: "h' = h1 @ [(Array ys, [])]" "y = Ref (length h1)"
      by (auto simp: alloc_def split: option.splits)
    from e have "extends h h1" by (rule copy_elems_extends [rotated]) (rule copy_extends)
    then have "length h \<le> length h1" by (rule extends_length)
    with r cell Array show ?thesis by simp
  next
    case (Plain p)
    with assms Suc a cell obtain h1
      where e1: "copy_entries (copy n) (length h) (h @ [(Plain ObjectProto, [])]) ps = Some h1"
      and h': "h' = (if read_proto p \<noteq> Some ObjectProto
                   then write_proto h1 (length h) (read_proto p) else h1)"
      and y: "y = Ref (length h)"
      by (auto simp: alloc_def split: option.splits)
    from copy_entries_kind [of "copy n", OF copy_extends e1]
    have k1: "length h < length h1" "fst (h1 ! length h) = Plain ObjectProto" by simp_all
    obtain ps1 where "h1 ! length h = (Plain ObjectProto, ps1)"
      using k1(2) by (cases "h1 ! length h") simp
    note c1 = this
    have "\<exists>p'. fst (h' ! length h) = Plain p'"
    proof (cases "read_proto p \<noteq> Some ObjectProto")
      case True
      from nth_write_proto_same [OF k1(1) c1, of "read_proto p"]
      obtain p' where "write_proto h1 (length h) (read_proto p) ! length h = (Plain p', ps1)"
        by blast
      with True show ?thesis by (simp add: h')
    next
      case False
      with c1 show ?thesis by (simp add: h')
    qed
    moreover have "length h < length h'" using k1(1) by (simp add: h' length_write_proto)
    ultimately show ?thesis using y cell Plain by simp
  qed
qed

lemma call_copy:
  assumes "copy m h x = Some (h', y)"
  shows "call natives (Suc m) h' y args = call natives m h' x args"
proof (cases x)
  case (Ref a)
  from assms have e: "extends h h'" by (rule copy_extends)
  from assms Ref have a: "a < length h" by (cases m) (auto split: if_splits)
  with e have old: "a < length h'" "h' ! a = h ! a" by (auto simp: extends_def)
  from copy_kind [OF assms [unfolded Ref]] obtain r where r: "y = Ref r" "r < length h'"
    and k: "case fst (h ! a) of
                  Function f \<Rightarrow> fst (h' ! r) = Function (Forward a)
                | Array xs \<Rightarrow> (\<exists>ys. fst (h' ! r) = Array ys)
                | Plain p \<Rightarrow> (\<exists>p'. fst (h' ! r) = Plain p')"
    by blast
  obtain kd ps where cell: "h ! a = (kd, ps)" by (cases "h ! a")
  obtain kd' ps' where cell': "h' ! r = (kd', ps')" by (cases "h' ! r")
  show ?thesis
  proof (cases kd)
    case (Function f)
    with k cell cell' r Ref show ?thesis by simp
  next
    case (Array xs)
    with k cell cell' r Ref old show ?thesis by (cases m) auto
  next
    case (Plain p)
    with k cell cell' r Ref old show ?thesis by (cases m) auto
  qed
qed (use assms in \<open>auto split: if_splits elim!: copy.elims\<close>)

lemma addrs_deps: "a \<in> set (addrs t) \<Longrightarrow> a \<in> set (deps t)"
  by (induction t) auto

lemma copy_tree:
  assumes "view n h x = Some t" and "n \<le> m"
  shows "\<exists>h' y t'. copy m h x = Some (h', y) \<and> extends h h'
           \<and> view (Suc m) h' y = Some t' \<and> strip t' = strip t
           \<and> (\<forall>a\<in>set (addrs t'). length h \<le> a)"
proof -
  from copy_view [OF assms(1)] obtain h' y t' where c: "copy n h x = Some (h', y)"
    and g: "good n h t h' y t'" by blast
  from assms(2) c have cm: "copy m h x = Some (h', y)" by (rule copy_mono_le)
  from c have e: "extends h h'" by (rule copy_extends)
  from g have vn: "view (Suc n) h' y = Some t'" by (simp add: good_def)
  from assms(2) have "Suc n \<le> Suc m" by simp
  then have v: "view (Suc m) h' y = Some t'" using vn by (rule view_mono_le)
  from g have s: "strip t' = strip t" by (simp add: good_def)
  from g have f: "\<forall>a\<in>set (addrs t'). length h \<le> a" by (simp add: good_def)
  show ?thesis
    by (intro exI conjI) (rule cm e v s f)+
qed

text \<open>
  C5. For every structural input \<open>x\<close> (a value whose view in the store is a finite tree
  \<open>t\<close> of depth at most \<open>n\<close>) and every bound \<open>m\<close> from \<open>n\<close> on, \<^verbatim>\<open>copy\<close> returns a value
  \<open>y\<close> in a store that still holds every old cell unchanged. The structure \<open>t'\<close> of \<open>y\<close>
  is equal to \<open>t\<close> up to the addresses: the same shape, the same keys, the same primitive
  leaves, and at a function leaf a function that forwards to the original. Every array,
  record and function object of \<open>t'\<close> is a new object, none of them an object of \<open>x\<close>.
  Calling \<open>y\<close> with any arguments is calling \<open>x\<close> with them, and where \<open>x\<close> is a function
  that call returns the result of its native function.
\<close>

theorem copy_structural:
  assumes "view n h x = Some t" and "n \<le> m"
  shows "\<exists>h' y t'. copy m h x = Some (h', y)
           \<and> take (length h) h' = h
           \<and> view (Suc m) h' y = Some t' \<and> strip t' = strip t
           \<and> (\<forall>a\<in>set (addrs t'). length h \<le> a)
           \<and> set (addrs t') \<inter> set (addrs t) = {}
           \<and> (\<forall>natives args. call natives (Suc m) h' y args = call natives m h' x args)
           \<and> (is_function t \<longrightarrow>
                (\<forall>natives args. \<exists>g. call natives m h' x args = Some (natives g h' args)))"
proof -
  from copy_tree [OF assms] obtain h' y t' where cm: "copy m h x = Some (h', y)"
    and e: "extends h h'" and v: "view (Suc m) h' y = Some t'" and s: "strip t' = strip t"
    and f: "\<forall>a\<in>set (addrs t'). length h \<le> a"
    by blast
  from e have tk: "take (length h) h' = h" by (simp add: extends_take)
  have lt: "a < length h" if "a \<in> set (addrs t)" for a
    using assms(1) addrs_deps [OF that] by (rule view_deps)
  have d: "set (addrs t') \<inter> set (addrs t) = {}"
  proof (rule ccontr)
    assume "set (addrs t') \<inter> set (addrs t) \<noteq> {}"
    then obtain a where a: "a \<in> set (addrs t')" "a \<in> set (addrs t)" by blast
    from f a(1) have "length h \<le> a" by blast
    with lt [OF a(2)] show False by simp
  qed
  have k: "\<forall>natives args. call natives (Suc m) h' y args = call natives m h' x args"
    using call_copy [OF cm] by blast
  from assms(2) assms(1) have "view m h x = Some t" by (rule view_mono_le)
  then have vx: "view m h' x = Some t" using e by (rule view_extends)
  have fn: "is_function t \<longrightarrow> (\<forall>natives args. \<exists>g. call natives m h' x args = Some (natives g h' args))"
    using call_function [OF vx] by blast
  show ?thesis
    by (intro exI conjI) (rule cm tk v s f d k fn)+
qed

theorem copy_structural_witness:
  "\<exists>h' y t'. copy 3 [(Plain (ClassProto 3), [(''a'', Num 1), (''f'', Ref 1), (''xs'', Ref 2)]),
                      (Function (Native 7), []),
                      (Array [Str ''x'', Ref 1], [])] (Ref 0) = Some (h', y)
      \<and> take 3 h' = [(Plain (ClassProto 3), [(''a'', Num 1), (''f'', Ref 1), (''xs'', Ref 2)]),
                      (Function (Native 7), []),
                      (Array [Str ''x'', Ref 1], [])]
      \<and> view 4 h' y = Some t'
      \<and> strip t' = RecordT 0 [''a'', ''f'', ''xs'']
                     [Leaf (Num 1), NativeT 0 7, ArrayT 0 [Leaf (Str ''x''), NativeT 0 7]]
      \<and> set (addrs t') \<inter> {0, 2, 1} = {}"
proof -
  let ?h = "[(Plain (ClassProto 3), [(''a'', Num 1), (''f'', Ref 1), (''xs'', Ref 2)]),
             (Function (Native 7), []), (Array [Str ''x'', Ref 1], [])]"
  let ?t = "RecordT 0 [''a'', ''f'', ''xs'']
              [Leaf (Num 1), NativeT 1 7, ArrayT 2 [Leaf (Str ''x''), NativeT 1 7]]"
  have v: "view 3 ?h (Ref 0) = Some ?t"
    by (simp add: view.simps(2) eval_nat_numeral)
  have le: "(3::nat) \<le> 3" by simp
  have len: "length ?h = 3" by simp
  have st: "strip ?t = RecordT 0 [''a'', ''f'', ''xs'']
                     [Leaf (Num 1), NativeT 0 7, ArrayT 0 [Leaf (Str ''x''), NativeT 0 7]]"
    by simp
  have ad: "set (addrs ?t) = {0, 2, 1}" by auto
  have four: "Suc 3 = 4" by simp
  from copy_structural [OF v le] obtain h' y t' where "copy 3 ?h (Ref 0) = Some (h', y)"
    "take (length ?h) h' = ?h" "view (Suc 3) h' y = Some t'" "strip t' = strip ?t"
    "set (addrs t') \<inter> set (addrs ?t) = {}"
    by blast
  then show ?thesis unfolding len st ad four by blast
qed

subsection \<open>The outbound interceptor\<close>




lemma strip_record:
  "strip t' = strip (RecordT a ks ts) \<Longrightarrow> view n h y = Some t' \<Longrightarrow> \<exists>r. y = Ref r \<and> r < length h"
proof (cases y)
  case (Ref r)
  assume "view n h y = Some t'"
  with Ref show ?thesis by (auto dest: view_Ref_length)
next
  case Undefined
  assume "strip t' = strip (RecordT a ks ts)" "view n h y = Some t'"
  with Undefined show ?thesis by (cases n) auto
next
  case Null
  assume "strip t' = strip (RecordT a ks ts)" "view n h y = Some t'"
  with Null show ?thesis by (cases n) auto
next
  case (Bool b)
  assume "strip t' = strip (RecordT a ks ts)" "view n h y = Some t'"
  with Bool show ?thesis by (cases n) auto
next
  case (Num i)
  assume "strip t' = strip (RecordT a ks ts)" "view n h y = Some t'"
  with Num show ?thesis by (cases n) auto
next
  case (BigInt i)
  assume "strip t' = strip (RecordT a ks ts)" "view n h y = Some t'"
  with BigInt show ?thesis by (cases n) auto
next
  case (Str s)
  assume "strip t' = strip (RecordT a ks ts)" "view n h y = Some t'"
  with Str show ?thesis by (cases n) auto
qed

lemma get_store_prop:
  "a < length h \<Longrightarrow> get_prop (store_prop h a k v) (Ref a) k = Inr v"
  by (simp add: store_prop_def update_conv')

lemma capture_record:
  "a < length (store w) \<Longrightarrow> \<exists>w1. capture w (Ref a) = Inr w1 \<and> store w1 = store w
      \<and> (capabilities w \<noteq> Undefined \<longrightarrow> w1 = w)"
  by (simp add: capture_def)

lemma outgoing_identify_record:
  assumes "view n (store w) d = Some (RecordT a ks ts)" and "n \<le> depth"
  shows "\<exists>w1 h2 r. store w1 = store w \<and> (capabilities w \<noteq> Undefined \<longrightarrow> w1 = w)
           \<and> r < length h2 \<and> length (store w) \<le> r \<and> extends (store w) h2
           \<and> interceptOutgoingPayload depth w 2 d flag
               = (w1\<lparr>store := store_prop h2 r ''capabilities'' (capabilities w1)\<rparr>,
                  Inr (2, Ref r, case flag of None \<Rightarrow> True | Some b \<Rightarrow> b))"
proof -
  from copy_tree [OF assms] obtain h2 d2 t' where c: "copy depth (store w) d = Some (h2, d2)"
    and v: "view (Suc depth) h2 d2 = Some t'" and s: "strip t' = strip (RecordT a ks ts)"
    and f: "\<forall>a\<in>set (addrs t'). length (store w) \<le> a"
    by blast
  from strip_record [OF s v] obtain r where r: "d2 = Ref r" "r < length h2" by blast
  from v r have "r \<in> set (addrs t')" by (auto elim: view_Ref_cases)
  with f have fresh: "length (store w) \<le> r" by blast
  from assms(1) obtain b where d: "d = Ref b" "b < length (store w)"
    by (cases d; cases n) (auto dest: view_Ref_length)
  from capture_record [OF d(2)] d(1) obtain w1 where w1: "capture w d = Inr w1" "store w1 = store w"
    "capabilities w \<noteq> Undefined \<longrightarrow> w1 = w" by blast
  from c have "extends (store w) h2" by (rule copy_extends)
  moreover have "interceptOutgoingPayload depth w 2 d flag
               = (w1\<lparr>store := store_prop h2 r ''capabilities'' (capabilities w1)\<rparr>,
                  Inr (2, Ref r, case flag of None \<Rightarrow> True | Some b \<Rightarrow> b))"
    using w1 c r by (simp add: interceptOutgoingPayload_def)
  ultimately show ?thesis using w1 r fresh by blast
qed

text \<open>
  C6. Capture is first write wins. Once the bitmask is set, no call of the outbound
  interceptor changes it, whatever the opcode, the payload and the outcome. And starting
  from the unset state, after an identify with \<^verbatim>\<open>capabilities: 5\<close> and then an identify
  with \<^verbatim>\<open>capabilities: 9\<close>, the bitmask is 5.
\<close>

theorem capture_first_write_wins:
  "(capabilities w \<noteq> Undefined \<longrightarrow>
      capabilities (fst (interceptOutgoingPayload depth w opcode d flag)) = capabilities w)
   \<and> capabilities
       (fst (interceptOutgoingPayload 2
          (fst (interceptOutgoingPayload 2
             \<lparr>capabilities = Undefined,
              store = [(Plain ObjectProto, [(''capabilities'', Num 5)]),
                       (Plain ObjectProto, [(''capabilities'', Num 9)])]\<rparr>
             2 (Ref 0) None))
          2 (Ref 1) None)) = Num 5"
proof -
  have "capabilities (fst (interceptOutgoingPayload depth w opcode d flag)) = capabilities w"
    if "capabilities w \<noteq> Undefined"
    using that
    by (auto simp: interceptOutgoingPayload_def capture_def Let_def split: option.splits sum.splits)
  moreover have "capabilities
       (fst (interceptOutgoingPayload 2
          (fst (interceptOutgoingPayload 2
             \<lparr>capabilities = Undefined,
              store = [(Plain ObjectProto, [(''capabilities'', Num 5)]),
                       (Plain ObjectProto, [(''capabilities'', Num 9)])]\<rparr>
             2 (Ref 0) None))
          2 (Ref 1) None)) = Num 5"
    by (simp add: interceptOutgoingPayload_def capture_def alloc_def store_prop_def eval_nat_numeral)
  ultimately show ?thesis by blast
qed

theorem capture_first_write_wins_witness:
  "capabilities (fst (interceptOutgoingPayload 2
       \<lparr>capabilities = Num 5, store = [(Plain ObjectProto, [(''capabilities'', Num 9)])]\<rparr>
       2 (Ref 0) None)) = Num 5"
  using capture_first_write_wins
    [of "\<lparr>capabilities = Num 5, store = [(Plain ObjectProto, [(''capabilities'', Num 9)])]\<rparr>" 2 2 "Ref 0" None]
  by simp

text \<open>
  C7. If the bitmask is set, to 5 or to any other value, then every identify (opcode 2)
  whose payload is a structural record, whatever \<^verbatim>\<open>capabilities\<close> it carries, returns
  opcode 2 and a payload whose \<^verbatim>\<open>capabilities\<close> is the bitmask, and the bitmask is
  unchanged. The witness is the bitmask 5 against a payload that carries 999.
\<close>

theorem identify_carries_bitmask:
  assumes "capabilities w \<noteq> Undefined"
    and "view n (store w) d = Some (RecordT a ks ts)" and "n \<le> depth"
  shows "\<exists>w' d'. interceptOutgoingPayload depth w 2 d flag
                    = (w', Inr (2, d', case flag of None \<Rightarrow> True | Some b \<Rightarrow> b))
           \<and> get_prop (store w') d' ''capabilities'' = Inr (capabilities w)
           \<and> capabilities w' = capabilities w"
proof -
  from outgoing_identify_record [OF assms(2,3), of flag] assms(1)
  obtain h2 r where r: "r < length h2"
    and i: "interceptOutgoingPayload depth w 2 d flag
               = (w\<lparr>store := store_prop h2 r ''capabilities'' (capabilities w)\<rparr>,
                  Inr (2, Ref r, case flag of None \<Rightarrow> True | Some b \<Rightarrow> b))"
    by auto
  define w' where "w' = w\<lparr>store := store_prop h2 r ''capabilities'' (capabilities w)\<rparr>"
  have "get_prop (store w') (Ref r) ''capabilities'' = Inr (capabilities w)"
    using r by (simp add: w'_def get_store_prop del: get_prop.simps)
  moreover have "capabilities w' = capabilities w" by (simp add: w'_def)
  ultimately show ?thesis using i unfolding w'_def by blast
qed

theorem identify_carries_bitmask_witness:
  "\<exists>w' d'. interceptOutgoingPayload 2
              \<lparr>capabilities = Num 5, store = [(Plain ObjectProto, [(''capabilities'', Num 999), (''token'', Str ''x'')])]\<rparr>
              2 (Ref 0) None = (w', Inr (2, d', True))
         \<and> get_prop (store w') d' ''capabilities'' = Inr (Num 5)
         \<and> capabilities w' = Num 5"
proof -
  let ?w = "\<lparr>capabilities = Num 5, store = [(Plain ObjectProto, [(''capabilities'', Num 999), (''token'', Str ''x'')])]\<rparr>"
  have v: "view 2 (store ?w) (Ref 0) = Some (RecordT 0 [''capabilities'', ''token''] [Leaf (Num 999), Leaf (Str ''x'')])"
    by (simp add: view.simps(2) eval_nat_numeral)
  have c: "capabilities ?w \<noteq> Undefined" by simp
  show ?thesis
    using identify_carries_bitmask [OF c v, of 2 None] by simp
qed



end
